theory Spec2Isabelle
  imports Main "HOL-Library.Multiset"
begin

section \<open>Events and fields (package pubsub, the event model)\<close>

text \<open>
  Go strings are byte sequences; they are modelled as \<^typ>\<open>string\<close> (a list of
  8-bit characters). Go's \<open>int\<close> is modelled as \<^typ>\<open>int\<close>: no arithmetic of
  this package can overflow, and the sign of an index matters.

  A panic of the Go runtime or of the package is a value of type \<open>panic\<close>; a function
  that can panic returns \<open>panic + 'a\<close>, with \<open>Inl\<close> for the panic.
\<close>

datatype panic =
    IndexOutOfRange
  | UnknownEventType
  | ExpectedStringOrField

text \<open>\<open>type EventType int\<close>, with the two constants declared by \<open>iota\<close>.\<close>

type_synonym EventType = int

definition PlainEvent :: EventType where
  "PlainEvent = 0"

definition PatternEvent :: EventType where
  "PatternEvent = 1"

definition EventType_SubCommand :: "EventType \<Rightarrow> panic + string" where
  "EventType_SubCommand e =
     (if e = PlainEvent then Inr ''SUBSCRIBE''
      else if e = PatternEvent then Inr ''PSUBSCRIBE''
      else Inl UnknownEventType)"

definition EventType_UnsubCommand :: "EventType \<Rightarrow> panic + string" where
  "EventType_UnsubCommand e =
     (if e = PlainEvent then Inr ''UNSUBSCRIBE''
      else if e = PatternEvent then Inr ''PUNSUBSCRIBE''
      else Inl UnknownEventType)"

text \<open>\<open>type Field struct { valid bool; alias string; value string }\<close>\<close>

record Field =
  f_valid :: bool
  f_alias :: string
  f_value :: string

text \<open>The zero value \<open>Field{valid: false}\<close>: both strings are empty.\<close>

definition zero_Field :: Field where
  "zero_Field = \<lparr>f_valid = False, f_alias = [], f_value = []\<rparr>"

definition Field_As :: "Field \<Rightarrow> string \<Rightarrow> Field" where
  "Field_As f a = \<lparr>f_valid = f_valid f, f_alias = a, f_value = f_value f\<rparr>"

definition Field_IsZero :: "Field \<Rightarrow> bool" where
  "Field_IsZero f = (\<not> f_valid f)"

definition Field_String :: "Field \<Rightarrow> string" where
  "Field_String f = f_value f"

subsection \<open>The parts of Go's \<open>strconv\<close> and \<open>strings\<close> that the package calls\<close>

text \<open>
  \<open>strconv.ParseUint\<close>, \<open>strconv.ParseInt\<close>, \<open>strconv.Itoa\<close> and
  \<open>strings.Join\<close> belong to Go's standard library, not to this repository; they are
  modelled after the library's documented behaviour, for base 10 (the only base the
  package passes). On a range error the current library returns the largest value of
  the bit size from \<open>ParseUint\<close>, older releases \<open>1<<64 - 1\<close>; for the bit sizes
  the package passes the results of the accessors are the same. A result is the pair
  of Go: the number and the error, \<open>None\<close> for \<open>nil\<close>.
\<close>

datatype NumError = ErrSyntax | ErrRange

definition is_digit :: "char \<Rightarrow> bool" where
  "is_digit c = (48 \<le> (of_char c :: nat) \<and> (of_char c :: nat) \<le> 57)"

definition digit_val :: "char \<Rightarrow> nat" where
  "digit_val c = (of_char c :: nat) - 48"

definition maxUint64 :: nat where
  "maxUint64 = 2 ^ 64 - 1"

text \<open>
  The digit loop of \<open>ParseUint\<close>: \<open>n\<close> is the \<open>uint64\<close> accumulator,
  \<open>maxVal = 1<<bitSize - 1\<close>. A byte that is no decimal digit is a syntax error;
  \<open>n >= cutoff\<close> (the product would overflow) and \<open>n1 < n || n1 > maxVal\<close> (the
  sum wrapped around or left the range) are range errors, returned with \<open>maxVal\<close>.
\<close>

fun ParseUint_loop :: "nat \<Rightarrow> string \<Rightarrow> nat \<Rightarrow> nat \<times> NumError option" where
  "ParseUint_loop maxVal [] n = (n, None)"
| "ParseUint_loop maxVal (c # cs) n =
     (if \<not> is_digit c then (0, Some ErrSyntax)
      else if n \<ge> maxUint64 div 10 + 1 then (maxVal, Some ErrRange)
      else
        let n10 = (n * 10) mod 2 ^ 64;
            n1 = (n10 + digit_val c) mod 2 ^ 64
        in if n1 < n10 \<or> n1 > maxVal then (maxVal, Some ErrRange)
           else ParseUint_loop maxVal cs n1)"

definition ParseUint :: "string \<Rightarrow> nat \<Rightarrow> nat \<times> NumError option" where
  "ParseUint s bitSize =
     (if s = [] then (0, Some ErrSyntax)
      else ParseUint_loop (2 ^ bitSize - 1) s 0)"

text \<open>
  \<open>ParseInt\<close> picks off one leading sign, parses the rest unsigned, passes a syntax
  error on with 0, and checks the magnitude against \<open>cutoff = 1 << (bitSize-1)\<close>,
  returning the nearest bound with a range error.
\<close>

definition ParseInt :: "string \<Rightarrow> nat \<Rightarrow> int \<times> NumError option" where
  "ParseInt s bitSize =
     (if s = [] then (0, Some ErrSyntax)
      else
        let neg = (hd s = CHR ''-'');
            s1 = (if hd s = CHR ''+'' \<or> hd s = CHR ''-'' then tl s else s);
            (un, err) = ParseUint s1 bitSize;
            cutoff = (2::nat) ^ (bitSize - 1)
        in if err = Some ErrSyntax then (0, err)
           else if \<not> neg \<and> un \<ge> cutoff then (int cutoff - 1, Some ErrRange)
           else if neg \<and> un > cutoff then (- int cutoff, Some ErrRange)
           else (if neg then - int un else int un, None))"

text \<open>\<open>strconv.Itoa\<close>: the decimal digits, most significant first, after a \<open>-\<close> for a
  negative number.\<close>

fun udigits :: "nat \<Rightarrow> string" where
  "udigits n =
     (if n < 10 then [char_of (48 + n)]
      else udigits (n div 10) @ [char_of (48 + n mod 10)])"

declare udigits.simps [simp del]

definition Itoa :: "int \<Rightarrow> string" where
  "Itoa x = (if x < 0 then CHR ''-'' # udigits (nat (- x)) else udigits (nat x))"

text \<open>What the spec calls numeric, to state what the parsers accept: a string of decimal
  digits and the number it writes, and the same after one optional sign.\<close>

definition decimal_value :: "string \<Rightarrow> nat" where
  "decimal_value s = foldl (\<lambda>n c. n * 10 + digit_val c) 0 s"

definition all_digits :: "string \<Rightarrow> bool" where
  "all_digits s = (s \<noteq> [] \<and> (\<forall>c \<in> set s. is_digit c))"

definition unsigned_part :: "string \<Rightarrow> string" where
  "unsigned_part s = (if s \<noteq> [] \<and> (hd s = CHR ''+'' \<or> hd s = CHR ''-'') then tl s else s)"

definition signed_numeral :: "string \<Rightarrow> bool" where
  "signed_numeral s = all_digits (unsigned_part s)"

definition numeral_value :: "string \<Rightarrow> int" where
  "numeral_value s =
     (if s \<noteq> [] \<and> hd s = CHR ''-'' then - int (decimal_value (unsigned_part s))
      else int (decimal_value (unsigned_part s)))"

fun strings_Join :: "string list \<Rightarrow> string \<Rightarrow> string" where
  "strings_Join [] sep = []"
| "strings_Join [x] sep = x"
| "strings_Join (x # y # ys) sep = x @ sep @ strings_Join (y # ys) sep"

subsection \<open>Field accessors and constructors\<close>

text \<open>\<open>Int\<close> parses with bit size 32 and converts the \<open>int64\<close> to \<open>int\<close>; the
  value is within 32 bits also when an error is returned, so the conversion keeps it.\<close>

definition Field_Int :: "Field \<Rightarrow> int \<times> NumError option" where
  "Field_Int f = ParseInt (f_value f) 32"

definition Field_Uint64 :: "Field \<Rightarrow> nat \<times> NumError option" where
  "Field_Uint64 f = ParseUint (f_value f) 64"

definition Field_Int64 :: "Field \<Rightarrow> int \<times> NumError option" where
  "Field_Int64 f = ParseInt (f_value f) 64"

text \<open>The constructors \<open>String\<close>, \<open>Int\<close> and \<open>Star\<close>; the alias is left at its zero
  value, the empty string.\<close>

definition String_Field :: "string \<Rightarrow> Field" where
  "String_Field str = \<lparr>f_valid = True, f_alias = [], f_value = str\<rparr>"

definition Int_Field :: "int \<Rightarrow> Field" where
  "Int_Field x = \<lparr>f_valid = True, f_alias = [], f_value = Itoa x\<rparr>"

definition Star :: Field where
  "Star = \<lparr>f_valid = True, f_alias = [], f_value = ''*''\<rparr>"

subsection \<open>Events\<close>

text \<open>\<open>type Event struct { fields []Field; kind EventType }\<close>\<close>

record Event =
  ev_fields :: "Field list"
  ev_kind :: EventType

definition Event_Len :: "Event \<Rightarrow> int" where
  "Event_Len e = int (length (ev_fields e))"

text \<open>Indexing a Go slice: the runtime panics unless \<open>0 <= i < len\<close>.\<close>

definition slice_index :: "'a list \<Rightarrow> int \<Rightarrow> panic + 'a" where
  "slice_index xs i =
     (if 0 \<le> i \<and> i < int (length xs) then Inr (xs ! nat i) else Inl IndexOutOfRange)"

definition Event_Get :: "Event \<Rightarrow> int \<Rightarrow> panic + Field" where
  "Event_Get e i =
     (if int (length (ev_fields e)) \<le> i then Inr zero_Field
      else slice_index (ev_fields e) i)"

fun Find_loop :: "Field list \<Rightarrow> string \<Rightarrow> Field" where
  "Find_loop [] a = zero_Field"
| "Find_loop (field # rest) a = (if f_alias field = a then field else Find_loop rest a)"

definition Event_Find :: "Event \<Rightarrow> string \<Rightarrow> Field" where
  "Event_Find e a = Find_loop (ev_fields e) a"

definition Event_Name :: "Event \<Rightarrow> string" where
  "Event_Name e = strings_Join (map f_value (ev_fields e)) []"

definition Event_Type :: "Event \<Rightarrow> EventType" where
  "Event_Type e = ev_kind e"

text \<open>The \<open>interface{}\<close> argument of \<open>NewEvent\<close>: a string, a byte slice, a Field, or
  a value of any other type.\<close>

datatype go_value = GoString string | GoBytes string | GoField Field | GoOther

fun toFieldFromString :: "go_value \<Rightarrow> panic + Field" where
  "toFieldFromString (GoString t) = Inr (String_Field t)"
| "toFieldFromString (GoBytes t) = Inr (String_Field t)"
| "toFieldFromString (GoField t) = Inr t"
| "toFieldFromString GoOther = Inl ExpectedStringOrField"

definition NewEvent :: "go_value \<Rightarrow> Field list \<Rightarrow> panic + Event" where
  "NewEvent name flds =
     (case toFieldFromString name of
        Inl p \<Rightarrow> Inl p
      | Inr f \<Rightarrow> Inr \<lparr>ev_fields = f # flds, ev_kind = PlainEvent\<rparr>)"

definition NewPatternEvent :: "go_value \<Rightarrow> Field list \<Rightarrow> panic + Event" where
  "NewPatternEvent name flds =
     (case toFieldFromString name of
        Inl p \<Rightarrow> Inl p
      | Inr f \<Rightarrow> Inr \<lparr>ev_fields = f # flds, ev_kind = PatternEvent\<rparr>)"

section \<open>The listener registry (\<open>record\<close>, \<open>recordList\<close>)\<close>

text \<open>
  Modelled from the spec: the \<open>Listener\<close> interface is declared in a file that is not
  among the sources; the spec calls it an opaque callback identity, compared by identity.
  It is the type parameter \<open>'l\<close>, and \<open>l == fn\<close> is equality on \<open>'l\<close>.

  \<open>type record struct { name string; ev Event; list []Listener }\<close>. A
  \<open>recordList\<close> holds pointers to its records, each pointer in one slot only, so a
  write through the pointer is an update of that slot.
\<close>

record 'l record_t =
  rec_name :: string
  rec_ev :: Event
  rec_listeners :: "'l list"

record 'l recordList =
  rl_list :: "'l record_t list"

text \<open>The zero value \<open>&record{}\<close>.\<close>

definition zero_record :: "'l record_t" where
  "zero_record = \<lparr>rec_name = [], rec_ev = \<lparr>ev_fields = [], ev_kind = 0\<rparr>, rec_listeners = []\<rparr>"

text \<open>\<open>Emit\<close> calls \<open>l.Handle(ev, b)\<close> for each listener in order; the model returns
  the calls made.\<close>

definition record_Emit :: "'l record_t \<Rightarrow> Event \<Rightarrow> string \<Rightarrow> ('l \<times> Event \<times> string) list" where
  "record_Emit r ev b = map (\<lambda>l. (l, ev, b)) (rec_listeners r)"

text \<open>\<open>find\<close> returns the index and the record of the first record with the name, and
  \<open>(-1, nil)\<close>, here \<open>None\<close>, when there is none.\<close>

fun find_loop :: "'l record_t list \<Rightarrow> string \<Rightarrow> nat \<Rightarrow> (nat \<times> 'l record_t) option" where
  "find_loop [] ev i = None"
| "find_loop (r # rest) ev i =
     (if rec_name r = ev then Some (i, r) else find_loop rest ev (Suc i))"

definition recordList_find :: "'l recordList \<Rightarrow> string \<Rightarrow> (nat \<times> 'l record_t) option" where
  "recordList_find r ev = find_loop (rl_list r) ev 0"

definition recordList_FindCopy :: "'l recordList \<Rightarrow> string \<Rightarrow> 'l record_t" where
  "recordList_FindCopy r ev =
     (case recordList_find r ev of
        None \<Rightarrow> zero_record
      | Some (_, rc) \<Rightarrow> \<lparr>rec_name = rec_name rc, rec_ev = rec_ev rc, rec_listeners = rec_listeners rc\<rparr>)"

definition recordList_Add :: "'l recordList \<Rightarrow> Event \<Rightarrow> 'l \<Rightarrow> 'l recordList \<times> int" where
  "recordList_Add r ev fn =
     (case recordList_find r (Event_Name ev) of
        None \<Rightarrow>
          (r\<lparr>rl_list := rl_list r @
               [\<lparr>rec_name = Event_Name ev, rec_ev = ev, rec_listeners = [fn]\<rparr>]\<rparr>, 1)
      | Some (idx, rc) \<Rightarrow>
          (let rc' = rc\<lparr>rec_listeners := rec_listeners rc @ [fn]\<rparr>
           in (r\<lparr>rl_list := (rl_list r)[idx := rc']\<rparr>, int (length (rec_listeners rc')))))"

text \<open>The cut that \<open>Remove\<close> makes twice: slot \<open>i\<close> takes the last element, the last
  slot is set to \<open>nil\<close> and sliced off.\<close>

definition cut_at :: "'a list \<Rightarrow> nat \<Rightarrow> 'a list" where
  "cut_at xs i = butlast (xs[i := last xs])"

text \<open>The index of the first listener equal to \<open>fn\<close>, at which the loop of \<open>Remove\<close>
  cuts and breaks.\<close>

fun first_index :: "'l list \<Rightarrow> 'l \<Rightarrow> nat \<Rightarrow> nat option" where
  "first_index [] fn i = None"
| "first_index (l # rest) fn i = (if l = fn then Some i else first_index rest fn (Suc i))"

definition recordList_Remove :: "'l recordList \<Rightarrow> Event \<Rightarrow> 'l \<Rightarrow> 'l recordList \<times> int" where
  "recordList_Remove r ev fn =
     (case recordList_find r (Event_Name ev) of
        None \<Rightarrow> (r, 0)
      | Some (idx, rc) \<Rightarrow>
          (let ls = (case first_index (rec_listeners rc) fn 0 of
                       None \<Rightarrow> rec_listeners rc
                     | Some i \<Rightarrow> cut_at (rec_listeners rc) i);
               r' = r\<lparr>rl_list := (rl_list r)[idx := rc\<lparr>rec_listeners := ls\<rparr>]\<rparr>
           in if length ls > 0 then (r', int (length ls))
              else (r'\<lparr>rl_list := cut_at (rl_list r') idx\<rparr>, 0)))"

text \<open>A sequence of calls on one registry, for the states reachable from the empty one.\<close>

datatype 'l registry_op = OpAdd Event 'l | OpRemove Event 'l

fun apply_registry_op :: "'l registry_op \<Rightarrow> 'l recordList \<Rightarrow> 'l recordList" where
  "apply_registry_op (OpAdd ev fn) r = fst (recordList_Add r ev fn)"
| "apply_registry_op (OpRemove ev fn) r = fst (recordList_Remove r ev fn)"

definition run_registry_ops :: "'l registry_op list \<Rightarrow> 'l recordList" where
  "run_registry_ops ops = fold apply_registry_op ops \<lparr>rl_list = []\<rparr>"

text \<open>The listeners registered under a name, and the invariant of a registry: names
  are distinct and no record is without listeners.\<close>

definition listeners_of :: "'l recordList \<Rightarrow> string \<Rightarrow> 'l list" where
  "listeners_of r name =
     (case recordList_find r name of None \<Rightarrow> [] | Some (_, rc) \<Rightarrow> rec_listeners rc)"

definition recordList_inv :: "'l recordList \<Rightarrow> bool" where
  "recordList_inv r =
     (distinct (map rec_name (rl_list r)) \<and> (\<forall>rc \<in> set (rl_list r). rec_listeners rc \<noteq> []))"

section \<open>The emitter\<close>

text \<open>
  Modelled from the spec: the type \<open>command\<close> is declared in a file that is not among
  the sources; by the spec it is a verb and a sequence of arguments. The only argument
  the emitter passes is an event name.

  Of \<open>PubsubEmitter\<close> the model keeps the two registries \<open>subs\<close> and the channel
  \<open>send\<close>, as the sequence of commands sent on it and not yet received. The mutex and
  the goroutines are not modelled: each operation runs alone.
\<close>

record command =
  c_command :: string
  c_args :: "string list"

record 'l PubsubEmitter =
  p_send :: "command list"
  p_subs :: "'l recordList list"

definition NewPubsubEmitter :: "'l PubsubEmitter" where
  "NewPubsubEmitter = \<lparr>p_send = [], p_subs = [\<lparr>rl_list = []\<rparr>, \<lparr>rl_list = []\<rparr>]\<rparr>"

definition PubsubEmitter_Subscribe ::
    "'l PubsubEmitter \<Rightarrow> Event \<Rightarrow> 'l \<Rightarrow> panic + 'l PubsubEmitter" where
  "PubsubEmitter_Subscribe p ev l =
     (case slice_index (p_subs p) (Event_Type ev) of
        Inl e \<Rightarrow> Inl e
      | Inr rl \<Rightarrow>
          (let (rl', count) = recordList_Add rl ev l;
               p' = p\<lparr>p_subs := (p_subs p)[nat (Event_Type ev) := rl']\<rparr>
           in if count = 1 then
                (case EventType_SubCommand (Event_Type ev) of
                   Inl e \<Rightarrow> Inl e
                 | Inr verb \<Rightarrow>
                     Inr (p'\<lparr>p_send := p_send p' @
                            [\<lparr>c_command = verb, c_args = [Event_Name ev]\<rparr>]\<rparr>))
              else Inr p'))"

definition PubsubEmitter_Unsubscribe ::
    "'l PubsubEmitter \<Rightarrow> Event \<Rightarrow> 'l \<Rightarrow> panic + 'l PubsubEmitter" where
  "PubsubEmitter_Unsubscribe p ev l =
     (case slice_index (p_subs p) (Event_Type ev) of
        Inl e \<Rightarrow> Inl e
      | Inr rl \<Rightarrow>
          (let (rl', count) = recordList_Remove rl ev l;
               p' = p\<lparr>p_subs := (p_subs p)[nat (Event_Type ev) := rl']\<rparr>
           in if count = 0 then
                (case EventType_UnsubCommand (Event_Type ev) of
                   Inl e \<Rightarrow> Inl e
                 | Inr verb \<Rightarrow>
                     Inr (p'\<lparr>p_send := p_send p' @
                            [\<lparr>c_command = verb, c_args = [Event_Name ev]\<rparr>]\<rparr>))
              else Inr p'))"

text \<open>\<open>resubscribe\<close>: the first loop receives from \<open>send\<close> until nothing is pending;
  the nested loops then send one command per record, for \<open>kind\<close> the index of the
  registry in \<open>subs\<close>.\<close>

fun drain :: "command list \<Rightarrow> command list" where
  "drain [] = []"
| "drain (c # cs) = drain cs"

fun resubscribe_records ::
    "EventType \<Rightarrow> 'l record_t list \<Rightarrow> command list \<Rightarrow> panic + command list" where
  "resubscribe_records kind [] q = Inr q"
| "resubscribe_records kind (ev # rest) q =
     (case EventType_SubCommand kind of
        Inl e \<Rightarrow> Inl e
      | Inr verb \<Rightarrow>
          resubscribe_records kind rest (q @ [\<lparr>c_command = verb, c_args = [rec_name ev]\<rparr>]))"

fun resubscribe_kinds ::
    "EventType \<Rightarrow> 'l recordList list \<Rightarrow> command list \<Rightarrow> panic + command list" where
  "resubscribe_kinds kind [] q = Inr q"
| "resubscribe_kinds kind (recs # rest) q =
     (case resubscribe_records kind (rl_list recs) q of
        Inl e \<Rightarrow> Inl e
      | Inr q' \<Rightarrow> resubscribe_kinds (kind + 1) rest q')"

definition PubsubEmitter_resubscribe :: "'l PubsubEmitter \<Rightarrow> panic + 'l PubsubEmitter" where
  "PubsubEmitter_resubscribe p =
     (case resubscribe_kinds 0 (p_subs p) (drain (p_send p)) of
        Inl e \<Rightarrow> Inl e
      | Inr q \<Rightarrow> Inr (p\<lparr>p_send := q\<rparr>))"

text \<open>The data the read pump delivers: a \<open>redis.Message\<close> (channel, data), a
  \<open>redis.PMessage\<close> (pattern, channel, data), or anything else. \<open>handleEvent\<close>
  returns the calls of listeners it makes.\<close>

datatype redis_data = Message string string | PMessage string string string | OtherData

definition PubsubEmitter_handleEvent ::
    "'l PubsubEmitter \<Rightarrow> redis_data \<Rightarrow> panic + ('l \<times> Event \<times> string) list" where
  "PubsubEmitter_handleEvent p data =
     (case data of
        Message channel d \<Rightarrow>
          (case slice_index (p_subs p) PlainEvent of
             Inl e \<Rightarrow> Inl e
           | Inr rl \<Rightarrow>
               (let rc = recordList_FindCopy rl channel in Inr (record_Emit rc (rec_ev rc) d)))
      | PMessage pattern channel d \<Rightarrow> Inr []
      | OtherData \<Rightarrow> Inr [])"

text \<open>The events the constructors build have one of the two declared kinds; the
  emitter built by \<open>NewPubsubEmitter\<close> has the two registries, and each keeps its
  invariant.\<close>

definition valid_kind :: "Event \<Rightarrow> bool" where
  "valid_kind ev = (Event_Type ev = PlainEvent \<or> Event_Type ev = PatternEvent)"

definition emitter_inv :: "'l PubsubEmitter \<Rightarrow> bool" where
  "emitter_inv p = (length (p_subs p) = 2 \<and> (\<forall>rl \<in> set (p_subs p). recordList_inv rl))"

definition registry_of :: "'l PubsubEmitter \<Rightarrow> Event \<Rightarrow> 'l recordList" where
  "registry_of p ev = p_subs p ! nat (Event_Type ev)"

section \<open>Lemmas about events\<close>

lemma Join_concat: "strings_Join xs [] = concat xs"
  by (induction xs "[]::string" rule: strings_Join.induct) auto

lemma Find_loop_absent:
  "\<forall>f \<in> set fs. f_alias f \<noteq> a \<Longrightarrow> Find_loop fs a = zero_Field"
  by (induction fs) auto

lemma Find_loop_first:
  "i < length fs \<Longrightarrow> f_alias (fs ! i) = a \<Longrightarrow> \<forall>j<i. f_alias (fs ! j) \<noteq> a \<Longrightarrow>
   Find_loop fs a = fs ! i"
proof (induction fs arbitrary: i)
  case Nil
  then show ?case by simp
next
  case (Cons f fs)
  show ?case
  proof (cases i)
    case 0
    with Cons.prems show ?thesis by simp
  next
    case (Suc k)
    with Cons.prems have "f_alias f \<noteq> a" by auto
    moreover from Suc Cons.prems have "Find_loop fs a = fs ! k"
      by (intro Cons.IH) auto
    ultimately show ?thesis using Suc by simp
  qed
qed

lemma Find_loop_skip:
  "a \<noteq> [] \<Longrightarrow> f_alias f = [] \<Longrightarrow> Find_loop (xs @ f # ys) a = Find_loop (xs @ ys) a"
  by (induction xs) auto

lemma Find_loop_result:
  "Find_loop fs a = zero_Field \<or> (Find_loop fs a \<in> set fs \<and> f_alias (Find_loop fs a) = a)"
  by (induction fs) auto

lemma Event_Get_in_range:
  "0 \<le> i \<Longrightarrow>
   Event_Get e i = Inr (if i < Event_Len e then ev_fields e ! nat i else zero_Field)"
  by (simp add: Event_Get_def Event_Len_def slice_index_def)

section \<open>Lemmas about the integer parsers\<close>

lemma foldl_digits_ge: "n \<le> foldl (\<lambda>n c. n * 10 + digit_val c) n cs"
proof (induction cs arbitrary: n)
  case Nil
  show ?case by simp
next
  case (Cons c cs)
  have "n \<le> n * 10 + digit_val c" by simp
  also have "\<dots> \<le> foldl (\<lambda>n c. n * 10 + digit_val c) (n * 10 + digit_val c) cs"
    by (rule Cons.IH)
  finally show ?case by simp
qed

lemma digit_val_le: "is_digit c \<Longrightarrow> digit_val c \<le> 9"
  unfolding is_digit_def digit_val_def by arith

lemma ParseUint_loop_digits:
  assumes "\<forall>c \<in> set cs. is_digit c" and "maxVal \<le> maxUint64" and "n \<le> maxVal"
  shows "ParseUint_loop maxVal cs n =
     (if foldl (\<lambda>n c. n * 10 + digit_val c) n cs \<le> maxVal
      then (foldl (\<lambda>n c. n * 10 + digit_val c) n cs, None)
      else (maxVal, Some ErrRange))"
  using assms(1,3)
proof (induction cs arbitrary: n)
  case Nil
  then show ?case by simp
next
  case (Cons c cs)
  let ?f = "\<lambda>n c. n * 10 + digit_val c"
  from Cons.prems have dc: "is_digit c" and rest: "\<forall>c \<in> set cs. is_digit c" by auto
  have d9: "digit_val c \<le> 9" using dc by (rule digit_val_le)
  have mv: "maxVal < 18446744073709551616"
    using assms(2) by (simp add: maxUint64_def)
  have ge: "n * 10 + digit_val c \<le> foldl ?f (n * 10 + digit_val c) cs"
    by (rule foldl_digits_ge)
  show ?case
  proof (cases "n \<ge> maxUint64 div 10 + 1")
    case True
    then have "n * 10 \<ge> 18446744073709551620" by (simp add: maxUint64_def)
    with ge mv have "\<not> foldl ?f (n * 10 + digit_val c) cs \<le> maxVal" by linarith
    with True dc show ?thesis by simp
  next
    case False
    then have n10: "n * 10 \<le> 18446744073709551610" by (simp add: maxUint64_def)
    then have m10: "(n * 10) mod 2 ^ 64 = n * 10" by simp
    show ?thesis
    proof (cases "n * 10 + digit_val c < 2 ^ 64")
      case True
      then have m1: "(n * 10 + digit_val c) mod 2 ^ 64 = n * 10 + digit_val c" by simp
      show ?thesis
      proof (cases "n * 10 + digit_val c > maxVal")
        case True
        with ge have "\<not> foldl ?f (n * 10 + digit_val c) cs \<le> maxVal" by linarith
        with True dc False m10 m1 show ?thesis by (simp add: Let_def)
      next
        case False
        then have "n * 10 + digit_val c \<le> maxVal" by simp
        from False dc \<open>\<not> n \<ge> maxUint64 div 10 + 1\<close> m10 m1 Cons.IH [OF rest this]
        show ?thesis by (simp add: Let_def)
      qed
    next
      case False
      then have big: "n * 10 + digit_val c \<ge> 18446744073709551616" by simp
      have "(n * 10 + digit_val c) mod 2 ^ 64 = n * 10 + digit_val c - 2 ^ 64"
        using big n10 d9 by (simp add: mod_if)
      then have wrap: "(n * 10 + digit_val c) mod 2 ^ 64 < n * 10"
        using big n10 d9 by simp
      from big ge mv have "\<not> foldl ?f (n * 10 + digit_val c) cs \<le> maxVal" by linarith
      with dc \<open>\<not> n \<ge> maxUint64 div 10 + 1\<close> m10 wrap show ?thesis by (simp add: Let_def)
    qed
  qed
qed

lemma ParseUint_loop_nondigit:
  "\<not> (\<forall>c \<in> set cs. is_digit c) \<Longrightarrow> snd (ParseUint_loop maxVal cs n) \<noteq> None"
  by (induction cs arbitrary: n) (auto simp: Let_def)

lemma ParseUint_loop_range:
  "ParseUint_loop maxVal cs n = (v, Some ErrRange) \<Longrightarrow> v = maxVal"
  by (induction cs arbitrary: n) (auto simp: Let_def split: if_splits)

lemma ParseUint_digits:
  assumes "all_digits s" and "bitSize \<le> 64"
  shows "ParseUint s bitSize =
     (if decimal_value s \<le> 2 ^ bitSize - 1 then (decimal_value s, None)
      else (2 ^ bitSize - 1, Some ErrRange))"
proof -
  have "(2::nat) ^ bitSize \<le> 2 ^ 64"
    using assms(2) by (rule power_increasing) simp
  then have "(2::nat) ^ bitSize - 1 \<le> maxUint64"
    unfolding maxUint64_def by (rule diff_le_mono)
  with assms(1) ParseUint_loop_digits [of s "2 ^ bitSize - 1" 0]
  show ?thesis by (simp add: ParseUint_def all_digits_def decimal_value_def)
qed

lemma ParseUint_not_digits:
  "\<not> all_digits s \<Longrightarrow> snd (ParseUint s bitSize) \<noteq> None"
  using ParseUint_loop_nondigit [of s "2 ^ bitSize - 1" 0]
  by (auto simp: ParseUint_def all_digits_def)

lemma ParseUint_range:
  "ParseUint s bitSize = (v, Some ErrRange) \<Longrightarrow> v = 2 ^ bitSize - 1"
  using ParseUint_loop_range [of "2 ^ bitSize - 1" s 0 v]
  by (auto simp: ParseUint_def split: if_splits)

lemma ParseInt_unfold:
  assumes "s \<noteq> []"
  shows "ParseInt s bitSize =
     (let neg = (hd s = CHR ''-'');
          (un, err) = ParseUint (unsigned_part s) bitSize;
          cutoff = (2::nat) ^ (bitSize - 1)
      in if err = Some ErrSyntax then (0, err)
         else if \<not> neg \<and> un \<ge> cutoff then (int cutoff - 1, Some ErrRange)
         else if neg \<and> un > cutoff then (- int cutoff, Some ErrRange)
         else (if neg then - int un else int un, None))"
  using assms by (simp add: ParseInt_def unsigned_part_def)

lemma ParseInt_not_numeral:
  assumes "\<not> signed_numeral s" and "2 \<le> bitSize"
  shows "snd (ParseInt s bitSize) \<noteq> None"
proof (cases "s = []")
  case True
  then show ?thesis by (simp add: ParseInt_def)
next
  case False
  obtain un err where pu: "ParseUint (unsigned_part s) bitSize = (un, err)"
    by (cases "ParseUint (unsigned_part s) bitSize")
  from assms(1) have "snd (ParseUint (unsigned_part s) bitSize) \<noteq> None"
    unfolding signed_numeral_def by (rule ParseUint_not_digits)
  with pu have "err \<noteq> None" by simp
  then consider "err = Some ErrSyntax" | "err = Some ErrRange"
    by (cases err) (auto intro: NumError.exhaust)
  then show ?thesis
  proof cases
    case 1
    with pu False show ?thesis by (simp add: ParseInt_unfold)
  next
    case 2
    from ParseUint_range [OF pu [unfolded 2]] have un: "un = 2 ^ bitSize - 1" .
    have "(2::nat) ^ bitSize = 2 * 2 ^ (bitSize - 1)"
      using assms(2) by (cases bitSize) auto
    moreover have "(2::nat) ^ (bitSize - 1) \<ge> 2"
      using assms(2) self_le_power [of "2::nat" "bitSize - 1"] by (cases bitSize) auto
    ultimately have "un > 2 ^ (bitSize - 1)" using un by simp
    with pu 2 False show ?thesis by (simp add: ParseInt_unfold Let_def)
  qed
qed

lemma ParseInt_numeral:
  assumes "signed_numeral s" and "2 \<le> bitSize" and "bitSize \<le> 64"
  shows "ParseInt s bitSize =
     (if numeral_value s < - (2 ^ (bitSize - 1)) then (- (2 ^ (bitSize - 1)), Some ErrRange)
      else if numeral_value s \<ge> 2 ^ (bitSize - 1) then (2 ^ (bitSize - 1) - 1, Some ErrRange)
      else (numeral_value s, None))"
proof -
  define C where "C = (2::nat) ^ (bitSize - 1)"
  define dv where "dv = decimal_value (unsigned_part s)"
  have p2: "(2::nat) ^ bitSize = 2 * C"
    using assms(2) unfolding C_def by (cases bitSize) auto
  have C2: "C \<ge> 2"
    using assms(2) self_le_power [of "2::nat" "bitSize - 1"] unfolding C_def
    by (cases bitSize) auto
  have iC: "(2::int) ^ (bitSize - 1) = int C" by (simp add: C_def)
  from assms(1) have ne: "s \<noteq> []"
    by (auto simp: signed_numeral_def all_digits_def unsigned_part_def)
  from assms(1) have ad: "all_digits (unsigned_part s)" by (simp add: signed_numeral_def)
  have pu: "ParseUint (unsigned_part s) bitSize =
     (if dv \<le> 2 * C - 1 then (dv, None) else (2 * C - 1, Some ErrRange))"
    using ParseUint_digits [OF ad assms(3)] by (simp add: dv_def p2)
  have pi: "ParseInt s bitSize =
     (let neg = (hd s = CHR ''-'');
          (un, err) = ParseUint (unsigned_part s) bitSize;
          cutoff = C
      in if err = Some ErrSyntax then (0, err)
         else if \<not> neg \<and> un \<ge> cutoff then (int cutoff - 1, Some ErrRange)
         else if neg \<and> un > cutoff then (- int cutoff, Some ErrRange)
         else (if neg then - int un else int un, None))"
    using ParseInt_unfold [OF ne] unfolding C_def .
  show ?thesis
  proof (cases "hd s = CHR ''-''")
    case True
    with ne have nv: "numeral_value s = - int dv" by (simp add: numeral_value_def dv_def)
    show ?thesis
      unfolding pi iC pu nv using True C2 by (auto simp: Let_def)
  next
    case False
    then have nv: "numeral_value s = int dv" by (simp add: numeral_value_def dv_def)
    show ?thesis
      unfolding pi iC pu nv using False C2 by (auto simp: Let_def)
  qed
qed

lemma decimal_value_snoc:
  "decimal_value (xs @ [c]) = decimal_value xs * 10 + digit_val c"
  by (simp add: decimal_value_def)

lemma digit_char:
  assumes "d < 10"
  shows "is_digit (char_of (48 + d))" and "digit_val (char_of (48 + d)) = d"
proof -
  from assms have "(48 + d) mod 256 = 48 + d" by simp
  then have "(of_char (char_of (48 + d)) :: nat) = 48 + d" by simp
  then show "is_digit (char_of (48 + d))" and "digit_val (char_of (48 + d)) = d"
    using assms by (simp_all add: is_digit_def digit_val_def)
qed

lemma udigits_props: "all_digits (udigits n) \<and> decimal_value (udigits n) = n"
proof (induction n rule: udigits.induct)
  case (1 n)
  show ?case
  proof (cases "n < 10")
    case True
    then have u: "udigits n = [char_of (48 + n)]" by (simp add: udigits.simps)
    from digit_char [OF True] show ?thesis
      by (simp add: u all_digits_def decimal_value_def)
  next
    case False
    then have u: "udigits n = udigits (n div 10) @ [char_of (48 + n mod 10)]"
      by (subst udigits.simps) simp
    have m: "n mod 10 < 10" by simp
    from "1.IH" [OF False] digit_char [OF m] show ?thesis
      by (simp add: u all_digits_def decimal_value_snoc)
  qed
qed

lemma is_digit_not_sign: "is_digit c \<Longrightarrow> c \<noteq> CHR ''+'' \<and> c \<noteq> CHR ''-''"
  by (auto simp: is_digit_def)

lemma unsigned_part_digits: "all_digits s \<Longrightarrow> unsigned_part s = s"
proof -
  assume a: "all_digits s"
  then have "s \<noteq> []" and "is_digit (hd s)" by (auto simp: all_digits_def)
  with is_digit_not_sign [of "hd s"] show ?thesis by (simp add: unsigned_part_def)
qed

lemma Itoa_numeral: "signed_numeral (Itoa x) \<and> numeral_value (Itoa x) = x"
proof (cases "x < 0")
  case True
  then have i: "Itoa x = CHR ''-'' # udigits (nat (- x))" by (simp add: Itoa_def)
  have "unsigned_part (Itoa x) = udigits (nat (- x))" by (simp add: i unsigned_part_def)
  with udigits_props [of "nat (- x)"] True show ?thesis
    by (simp add: signed_numeral_def numeral_value_def i)
next
  case False
  then have i: "Itoa x = udigits (nat x)" by (simp add: Itoa_def)
  from udigits_props [of "nat x"] have a: "all_digits (udigits (nat x))"
    and v: "decimal_value (udigits (nat x)) = nat x" by auto
  from a have h: "is_digit (hd (udigits (nat x)))" by (auto simp: all_digits_def)
  with is_digit_not_sign have "hd (udigits (nat x)) \<noteq> CHR ''-''" by blast
  with a v False unsigned_part_digits [OF a] show ?thesis
    by (simp add: signed_numeral_def numeral_value_def i)
qed

lemma Uint64_char:
  "snd (Field_Uint64 f) = None \<longleftrightarrow>
     all_digits (f_value f) \<and> decimal_value (f_value f) < 2 ^ 64"
  "snd (Field_Uint64 f) = None \<longrightarrow> fst (Field_Uint64 f) = decimal_value (f_value f)"
proof -
  show "snd (Field_Uint64 f) = None \<longleftrightarrow>
     all_digits (f_value f) \<and> decimal_value (f_value f) < 2 ^ 64"
  proof (cases "all_digits (f_value f)")
    case True
    from ParseUint_digits [OF True, of 64] show ?thesis
      using True by (auto simp: Field_Uint64_def)
  next
    case False
    from ParseUint_not_digits [OF False, of 64] show ?thesis
      using False by (simp add: Field_Uint64_def)
  qed
  show "snd (Field_Uint64 f) = None \<longrightarrow> fst (Field_Uint64 f) = decimal_value (f_value f)"
  proof (cases "all_digits (f_value f)")
    case True
    from ParseUint_digits [OF True, of 64] show ?thesis
      by (auto simp: Field_Uint64_def)
  next
    case False
    from ParseUint_not_digits [OF False, of 64] show ?thesis
      by (auto simp: Field_Uint64_def)
  qed
qed

lemma ParseInt_char:
  assumes "2 \<le> b" and "b \<le> 64"
  shows "snd (ParseInt s b) = None \<longleftrightarrow>
     signed_numeral s \<and> - (2 ^ (b - 1)) \<le> numeral_value s \<and> numeral_value s < 2 ^ (b - 1)"
    and "snd (ParseInt s b) = None \<longrightarrow> fst (ParseInt s b) = numeral_value s"
proof -
  show "snd (ParseInt s b) = None \<longleftrightarrow>
     signed_numeral s \<and> - (2 ^ (b - 1)) \<le> numeral_value s \<and> numeral_value s < 2 ^ (b - 1)"
  proof (cases "signed_numeral s")
    case True
    show ?thesis unfolding ParseInt_numeral [OF True assms] using True by auto
  next
    case False
    from ParseInt_not_numeral [OF False assms(1)] False show ?thesis by simp
  qed
  show "snd (ParseInt s b) = None \<longrightarrow> fst (ParseInt s b) = numeral_value s"
  proof (cases "signed_numeral s")
    case True
    show ?thesis unfolding ParseInt_numeral [OF True assms] by auto
  next
    case False
    from ParseInt_not_numeral [OF False assms(1)] show ?thesis by auto
  qed
qed

lemma ParseInt_Itoa:
  assumes "2 \<le> b" and "b \<le> 64" and "- (2 ^ (b - 1)) \<le> x" and "x < 2 ^ (b - 1)"
  shows "ParseInt (Itoa x) b = (x, None)"
  using Itoa_numeral [of x] assms(3,4)
  by (simp add: ParseInt_numeral [OF _ assms(1,2)])

section \<open>Lemmas about the registry\<close>

subsection \<open>The lookup loop\<close>

lemma find_loop_None: "find_loop xs ev i = None \<longleftrightarrow> ev \<notin> rec_name ` set xs"
  by (induction xs arbitrary: i) auto

lemma find_loop_Some:
  "find_loop xs ev i = Some (k, r) \<Longrightarrow>
     i \<le> k \<and> k - i < length xs \<and> xs ! (k - i) = r \<and> rec_name r = ev"
proof (induction xs arbitrary: i)
  case Nil
  then show ?case by simp
next
  case (Cons x xs)
  show ?case
  proof (cases "rec_name x = ev")
    case True
    with Cons.prems show ?thesis by simp
  next
    case False
    with Cons.prems have "find_loop xs ev (Suc i) = Some (k, r)" by simp
    from Cons.IH [OF this] show ?thesis
      by (auto simp: Suc_diff_Suc less_eq_Suc_le)
  qed
qed

lemma find_loop_append:
  "find_loop (xs @ ys) ev i =
     (case find_loop xs ev i of
        Some kr \<Rightarrow> Some kr
      | None \<Rightarrow> find_loop ys ev (i + length xs))"
  by (induction xs arbitrary: i) (auto split: option.splits)

lemma find_loop_update:
  "rec_name r' = rec_name (xs ! k) \<Longrightarrow> k < length xs \<Longrightarrow>
   find_loop xs ev i = Some (i + k, xs ! k) \<Longrightarrow>
   find_loop (xs[k := r']) ev i = Some (i + k, r')"
proof (induction xs arbitrary: i k)
  case Nil
  then show ?case by simp
next
  case (Cons x xs)
  show ?case
  proof (cases k)
    case 0
    with Cons.prems show ?thesis by (auto split: if_splits dest: find_loop_Some)
  next
    case (Suc j)
    show ?thesis
    proof (cases "rec_name x = ev")
      case True
      with Cons.prems Suc show ?thesis by simp
    next
      case False
      with Cons.prems Suc have "find_loop xs ev (Suc i) = Some (Suc i + j, xs ! j)" by simp
      with Cons.IH [of j "Suc i"] Cons.prems Suc False show ?thesis by simp
    qed
  qed
qed

subsection \<open>The cut and the listener search\<close>

lemma cut_snoc:
  "cut_at (ys @ [y]) i = (if i < length ys then ys[i := y] else ys)"
  by (auto simp: cut_at_def list_update_append butlast_append split: nat.splits)

lemma mset_cut: "i < length xs \<Longrightarrow> mset (cut_at xs i) = mset xs - {#xs ! i#}"
proof (cases xs rule: rev_cases)
  case Nil
  then show ?thesis by (simp add: cut_at_def)
next
  case (snoc ys y)
  assume i: "i < length xs"
  show ?thesis
  proof (cases "i < length ys")
    case True
    then show ?thesis
      using snoc by (simp add: cut_snoc mset_update nth_append)
  next
    case False
    with i snoc have "i = length ys" by simp
    then show ?thesis using snoc by (simp add: cut_snoc)
  qed
qed

lemma map_cut: "map f (cut_at xs i) = cut_at (map f xs) i"
proof (cases xs rule: rev_cases)
  case Nil
  then show ?thesis by (simp add: cut_at_def)
next
  case (snoc ys y)
  then show ?thesis by (simp add: cut_snoc map_update)
qed

lemma distinct_cut: "distinct xs \<Longrightarrow> i < length xs \<Longrightarrow> distinct (cut_at xs i)"
proof (cases xs rule: rev_cases)
  case Nil
  then show ?thesis by (simp add: cut_at_def)
next
  case (snoc ys y)
  assume "distinct xs" "i < length xs"
  with snoc show ?thesis by (auto simp: cut_snoc distinct_list_update)
qed

lemma set_cut: "distinct xs \<Longrightarrow> i < length xs \<Longrightarrow> set (cut_at xs i) = set xs - {xs ! i}"
proof -
  assume d: "distinct xs" and i: "i < length xs"
  have "set (cut_at xs i) = set_mset (mset xs - {#xs ! i#})"
    using mset_cut [OF i] by (metis set_mset_mset)
  also have "\<dots> = set xs - {xs ! i}"
    using d i by (auto simp: in_diff_count distinct_count_atmost_1 split: if_splits)
  finally show ?thesis .
qed

lemma first_index_None: "first_index ls fn i = None \<longleftrightarrow> fn \<notin> set ls"
  by (induction ls arbitrary: i) auto

lemma first_index_Some:
  "first_index ls fn i = Some k \<Longrightarrow> i \<le> k \<and> k - i < length ls \<and> ls ! (k - i) = fn"
proof (induction ls arbitrary: i)
  case Nil
  then show ?case by simp
next
  case (Cons l ls)
  show ?case
  proof (cases "l = fn")
    case True
    with Cons.prems show ?thesis by simp
  next
    case False
    with Cons.prems have "first_index ls fn (Suc i) = Some k" by simp
    from Cons.IH [OF this] show ?thesis
      by (auto simp: Suc_diff_Suc less_eq_Suc_le)
  qed
qed

lemma mset_remove_first:
  "mset (case first_index ls fn 0 of None \<Rightarrow> ls | Some i \<Rightarrow> cut_at ls i) = mset ls - {#fn#}"
proof (cases "first_index ls fn 0")
  case None
  then have "fn \<notin> set ls" by (simp add: first_index_None)
  with None show ?thesis by simp
next
  case (Some k)
  from first_index_Some [OF this] have "k < length ls" "ls ! k = fn" by auto
  with Some show ?thesis by (simp add: mset_cut)
qed

subsection \<open>\<open>Add\<close> and \<open>Remove\<close> keep the invariant\<close>

lemma recordList_find_None:
  "recordList_find r ev = None \<longleftrightarrow> ev \<notin> rec_name ` set (rl_list r)"
  by (simp add: recordList_find_def find_loop_None)

lemma recordList_find_Some:
  "recordList_find r ev = Some (idx, rc) \<Longrightarrow>
     idx < length (rl_list r) \<and> rl_list r ! idx = rc \<and> rec_name rc = ev"
  using find_loop_Some [of "rl_list r" ev 0 idx rc] by (simp add: recordList_find_def)

lemma recordList_find_update:
  assumes "recordList_find r ev = Some (idx, rc)" and "rec_name rc' = rec_name rc"
  shows "recordList_find (r\<lparr>rl_list := (rl_list r)[idx := rc']\<rparr>) ev = Some (idx, rc')"
proof -
  from recordList_find_Some [OF assms(1)]
  have "idx < length (rl_list r)" "rl_list r ! idx = rc" by auto
  with assms find_loop_update [of rc' "rl_list r" idx ev 0] show ?thesis
    by (simp add: recordList_find_def)
qed

lemma listeners_of_Add:
  "listeners_of (fst (recordList_Add r ev fn)) (Event_Name ev) =
     listeners_of r (Event_Name ev) @ [fn]"
proof (cases "recordList_find r (Event_Name ev)")
  case None
  then have "find_loop (rl_list r) (Event_Name ev) 0 = None"
    by (simp add: recordList_find_def)
  with None show ?thesis
    by (simp add: recordList_Add_def listeners_of_def recordList_find_def find_loop_append)
next
  case (Some a)
  obtain idx rc where a: "a = (idx, rc)" by (cases a)
  from recordList_find_update [OF Some [unfolded a], of "rc\<lparr>rec_listeners := rec_listeners rc @ [fn]\<rparr>"]
  show ?thesis using Some a
    by (simp add: recordList_Add_def listeners_of_def Let_def)
qed

lemma snd_Add:
  "snd (recordList_Add r ev fn) = int (length (listeners_of r (Event_Name ev))) + 1"
  by (simp add: recordList_Add_def listeners_of_def Let_def split: option.splits)

lemma inv_Add:
  assumes "recordList_inv r"
  shows "recordList_inv (fst (recordList_Add r ev fn))"
proof (cases "recordList_find r (Event_Name ev)")
  case None
  then have "Event_Name ev \<notin> rec_name ` set (rl_list r)"
    by (simp add: recordList_find_None)
  with assms None show ?thesis
    by (auto simp: recordList_Add_def recordList_inv_def)
next
  case (Some a)
  obtain idx rc where a: "a = (idx, rc)" by (cases a)
  from recordList_find_Some [OF Some [unfolded a]]
  have idx: "idx < length (rl_list r)" and rc: "rl_list r ! idx = rc" by auto
  let ?rc' = "rc\<lparr>rec_listeners := rec_listeners rc @ [fn]\<rparr>"
  have names: "map rec_name ((rl_list r)[idx := ?rc']) = map rec_name (rl_list r)"
    using idx rc by (simp add: map_update list_update_same_conv)
  have "\<forall>x \<in> set ((rl_list r)[idx := ?rc']). rec_listeners x \<noteq> []"
    using assms set_update_subset_insert [of "rl_list r" idx ?rc']
    by (auto simp: recordList_inv_def)
  with names assms Some a show ?thesis
    by (simp add: recordList_Add_def recordList_inv_def Let_def)
qed

lemma Remove_found:
  assumes "recordList_find r (Event_Name ev) = Some (idx, rc)"
  shows "recordList_Remove r ev fn =
     (let ls = (case first_index (rec_listeners rc) fn 0 of
                  None \<Rightarrow> rec_listeners rc | Some i \<Rightarrow> cut_at (rec_listeners rc) i);
          ys = (rl_list r)[idx := rc\<lparr>rec_listeners := ls\<rparr>]
      in if ls \<noteq> [] then (r\<lparr>rl_list := ys\<rparr>, int (length ls))
         else (r\<lparr>rl_list := cut_at ys idx\<rparr>, 0))"
  using assms by (simp add: recordList_Remove_def Let_def)

lemma Remove_props:
  assumes inv: "recordList_inv r"
  shows "recordList_inv (fst (recordList_Remove r ev fn))" (is ?I)
    and "mset (listeners_of (fst (recordList_Remove r ev fn)) (Event_Name ev)) =
           mset (listeners_of r (Event_Name ev)) - {#fn#}" (is ?M)
    and "snd (recordList_Remove r ev fn) =
           int (length (listeners_of (fst (recordList_Remove r ev fn)) (Event_Name ev)))" (is ?S)
    and "recordList_find (fst (recordList_Remove r ev fn)) (Event_Name ev) = None \<longleftrightarrow>
           snd (recordList_Remove r ev fn) = 0" (is ?F)
    and "listeners_of (fst (recordList_Remove r ev fn)) (Event_Name ev) =
           (case first_index (listeners_of r (Event_Name ev)) fn 0 of
              None \<Rightarrow> listeners_of r (Event_Name ev)
            | Some i \<Rightarrow> cut_at (listeners_of r (Event_Name ev)) i)" (is ?L)
proof -
  let ?xs = "rl_list r"
  have "?I \<and> ?M \<and> ?S \<and> ?F \<and> ?L"
  proof (cases "recordList_find r (Event_Name ev)")
    case None
    with inv show ?thesis
      by (simp add: recordList_Remove_def listeners_of_def)
  next
    case (Some a)
    obtain idx rc where a: "a = (idx, rc)" by (cases a)
    note found = Some [unfolded a]
    from recordList_find_Some [OF found]
    have idx: "idx < length ?xs" and rc: "?xs ! idx = rc" and nm: "rec_name rc = Event_Name ev"
      by auto
    define ls where "ls = (case first_index (rec_listeners rc) fn 0 of
                  None \<Rightarrow> rec_listeners rc | Some i \<Rightarrow> cut_at (rec_listeners rc) i)"
    define ys where "ys = ?xs[idx := rc\<lparr>rec_listeners := ls\<rparr>]"
    have res: "recordList_Remove r ev fn =
        (if ls \<noteq> [] then (r\<lparr>rl_list := ys\<rparr>, int (length ls))
         else (r\<lparr>rl_list := cut_at ys idx\<rparr>, 0))"
      using Remove_found [OF found, of fn] by (simp add: ls_def ys_def Let_def)
    have mls: "mset ls = mset (rec_listeners rc) - {#fn#}"
      unfolding ls_def by (rule mset_remove_first)
    have old: "listeners_of r (Event_Name ev) = rec_listeners rc"
      using found by (simp add: listeners_of_def)
    have L0: "(case first_index (listeners_of r (Event_Name ev)) fn 0 of
              None \<Rightarrow> listeners_of r (Event_Name ev)
            | Some i \<Rightarrow> cut_at (listeners_of r (Event_Name ev)) i) = ls"
      unfolding old ls_def by (rule refl)
    have names: "map rec_name ys = map rec_name ?xs"
      using idx rc by (simp add: ys_def map_update list_update_same_conv)
    have dist: "distinct (map rec_name ?xs)"
      using inv by (simp add: recordList_inv_def)
    have ne: "\<forall>x \<in> set ?xs. rec_listeners x \<noteq> []"
      using inv by (simp add: recordList_inv_def)
    have len: "length ys = length ?xs" by (simp add: ys_def)
    show ?thesis
    proof (cases "ls = []")
      case False
      have "\<forall>x \<in> set ys. rec_listeners x \<noteq> []"
        using ne False set_update_subset_insert [of ?xs idx "rc\<lparr>rec_listeners := ls\<rparr>"]
        by (auto simp: ys_def)
      with names dist have I: "recordList_inv (r\<lparr>rl_list := ys\<rparr>)"
        by (simp add: recordList_inv_def)
      have f: "recordList_find (r\<lparr>rl_list := ys\<rparr>) (Event_Name ev) = Some (idx, rc\<lparr>rec_listeners := ls\<rparr>)"
        using recordList_find_update [OF found, of "rc\<lparr>rec_listeners := ls\<rparr>"]
        by (simp add: ys_def)
      have "listeners_of (r\<lparr>rl_list := ys\<rparr>) (Event_Name ev) = ls"
        using f by (simp add: listeners_of_def)
      with I f False mls old L0 show ?thesis
        by (simp add: res)
    next
      case True
      have nm2: "map rec_name (cut_at ys idx) = cut_at (map rec_name ?xs) idx"
        by (simp add: map_cut names)
      have d2: "distinct (cut_at (map rec_name ?xs) idx)"
        using dist idx by (simp add: distinct_cut)
      have s2: "set (cut_at (map rec_name ?xs) idx) = set (map rec_name ?xs) - {Event_Name ev}"
        using set_cut [OF dist, of idx] idx rc nm by simp
      have dys: "distinct ys"
        using dist names by (metis distinct_map)
      have "set (cut_at ys idx) = set ys - {ys ! idx}"
        using set_cut [OF dys, of idx] idx len by simp
      also have "\<dots> \<subseteq> set ?xs"
        using idx set_update_subset_insert [of ?xs idx "rc\<lparr>rec_listeners := ls\<rparr>"]
        by (auto simp: ys_def)
      finally have "\<forall>x \<in> set (cut_at ys idx). rec_listeners x \<noteq> []"
        using ne by auto
      with nm2 d2 have I: "recordList_inv (r\<lparr>rl_list := cut_at ys idx\<rparr>)"
        by (simp add: recordList_inv_def)
      have "Event_Name ev \<notin> rec_name ` set (cut_at ys idx)"
        using s2 nm2 by (metis Diff_iff insertI1 set_map)
      then have f: "recordList_find (r\<lparr>rl_list := cut_at ys idx\<rparr>) (Event_Name ev) = None"
        by (simp add: recordList_find_None)
      have "listeners_of (r\<lparr>rl_list := cut_at ys idx\<rparr>) (Event_Name ev) = ls"
        using f True by (simp add: listeners_of_def)
      with I f True mls old L0 show ?thesis
        by (simp add: res)
    qed
  qed
  then show ?I ?M ?S ?F ?L by auto
qed

lemma first_index_split:
  "fn \<notin> set xs \<Longrightarrow> first_index (xs @ fn # ys) fn i = Some (i + length xs)"
  by (induction xs arbitrary: i) auto

lemma fold_registry_inv:
  "recordList_inv r \<Longrightarrow> recordList_inv (fold apply_registry_op ops r)"
proof (induction ops arbitrary: r)
  case Nil
  then show ?case by simp
next
  case (Cons op ops)
  have "recordList_inv (apply_registry_op op r)"
    using Cons.prems by (cases op) (simp_all add: inv_Add Remove_props(1))
  then show ?case using Cons.IH by simp
qed

lemma run_registry_ops_inv: "recordList_inv (run_registry_ops ops)"
proof -
  have "recordList_inv (\<lparr>rl_list = []\<rparr> :: 'a recordList)"
    by (simp add: recordList_inv_def)
  then show ?thesis
    unfolding run_registry_ops_def by (rule fold_registry_inv)
qed

lemma Add_new:
  "recordList_find r (Event_Name ev) = None \<Longrightarrow>
   recordList_Add r ev fn =
     (r\<lparr>rl_list := rl_list r @
        [\<lparr>rec_name = Event_Name ev, rec_ev = ev, rec_listeners = [fn]\<rparr>]\<rparr>, 1)"
  by (simp add: recordList_Add_def)

lemma find_Add_new:
  assumes "recordList_find r (Event_Name ev) = None"
  shows "recordList_find (fst (recordList_Add r ev fn)) (Event_Name ev) =
     Some (length (rl_list r), \<lparr>rec_name = Event_Name ev, rec_ev = ev, rec_listeners = [fn]\<rparr>)"
proof -
  from assms have "find_loop (rl_list r) (Event_Name ev) 0 = None"
    by (simp add: recordList_find_def)
  then show ?thesis
    by (simp add: Add_new [OF assms] recordList_find_def find_loop_append)
qed

lemma listeners_of_empty_iff:
  "recordList_inv r \<Longrightarrow>
     listeners_of r name = [] \<longleftrightarrow> recordList_find r name = None"
proof (cases "recordList_find r name")
  case None
  then show ?thesis by (simp add: listeners_of_def)
next
  case (Some a)
  assume inv: "recordList_inv r"
  obtain idx rc where a: "a = (idx, rc)" by (cases a)
  from recordList_find_Some [OF Some [unfolded a]] have "rc \<in> set (rl_list r)"
    by (auto simp: in_set_conv_nth)
  with inv have "rec_listeners rc \<noteq> []" by (simp add: recordList_inv_def)
  with Some a show ?thesis by (simp add: listeners_of_def)
qed

section \<open>Lemmas about the emitter\<close>

lemma valid_kind_cases:
  "valid_kind ev \<Longrightarrow> Event_Type ev = 0 \<or> Event_Type ev = 1"
  by (simp add: valid_kind_def PlainEvent_def PatternEvent_def)

lemma registry_index:
  assumes "emitter_inv p" and "valid_kind ev"
  shows "slice_index (p_subs p) (Event_Type ev) = Inr (registry_of p ev)"
    and "nat (Event_Type ev) < length (p_subs p)"
    and "recordList_inv (registry_of p ev)"
proof -
  from assms(1) have len: "length (p_subs p) = 2" by (simp add: emitter_inv_def)
  from valid_kind_cases [OF assms(2)] len
  show idx: "nat (Event_Type ev) < length (p_subs p)" by auto
  from valid_kind_cases [OF assms(2)] len
  show "slice_index (p_subs p) (Event_Type ev) = Inr (registry_of p ev)"
    by (auto simp: slice_index_def registry_of_def)
  from idx have "registry_of p ev \<in> set (p_subs p)"
    by (simp add: registry_of_def)
  with assms(1) show "recordList_inv (registry_of p ev)"
    by (simp add: emitter_inv_def)
qed

lemma NewPubsubEmitter_inv: "emitter_inv NewPubsubEmitter"
  by (simp add: emitter_inv_def NewPubsubEmitter_def recordList_inv_def)

lemma SubCommand_valid:
  "valid_kind ev \<Longrightarrow> \<exists>verb. EventType_SubCommand (Event_Type ev) = Inr verb"
  by (auto simp: valid_kind_def EventType_SubCommand_def)

lemma UnsubCommand_valid:
  "valid_kind ev \<Longrightarrow> \<exists>verb. EventType_UnsubCommand (Event_Type ev) = Inr verb"
  by (auto simp: valid_kind_def EventType_UnsubCommand_def)

lemma emitter_inv_update:
  assumes "emitter_inv p" and "recordList_inv rl"
  shows "emitter_inv (p\<lparr>p_subs := (p_subs p)[k := rl], p_send := q\<rparr>)"
  using assms set_update_subset_insert [of "p_subs p" k rl]
  by (auto simp: emitter_inv_def)

lemma registry_of_update:
  "nat (Event_Type ev) < length (p_subs p) \<Longrightarrow>
   registry_of (p\<lparr>p_subs := (p_subs p)[nat (Event_Type ev) := rl], p_send := q\<rparr>) ev = rl"
  by (simp add: registry_of_def)

lemma Subscribe_result:
  assumes "emitter_inv p" and "valid_kind ev"
    and "EventType_SubCommand (Event_Type ev) = Inr verb"
  shows "PubsubEmitter_Subscribe p ev l =
     Inr (p\<lparr>p_subs := (p_subs p)[nat (Event_Type ev) :=
                  fst (recordList_Add (registry_of p ev) ev l)],
            p_send := (if listeners_of (registry_of p ev) (Event_Name ev) = []
                       then p_send p @ [\<lparr>c_command = verb, c_args = [Event_Name ev]\<rparr>]
                       else p_send p)\<rparr>)"
proof -
  have "snd (recordList_Add (registry_of p ev) ev l) = 1 \<longleftrightarrow>
          listeners_of (registry_of p ev) (Event_Name ev) = []"
    by (simp add: snd_Add)
  then show ?thesis
    using registry_index(1) [OF assms(1,2)] assms(3)
    by (simp add: PubsubEmitter_Subscribe_def split_beta Let_def)
qed

lemma Unsubscribe_result:
  assumes "emitter_inv p" and "valid_kind ev"
    and "EventType_UnsubCommand (Event_Type ev) = Inr verb"
  shows "PubsubEmitter_Unsubscribe p ev l =
     Inr (p\<lparr>p_subs := (p_subs p)[nat (Event_Type ev) :=
                  fst (recordList_Remove (registry_of p ev) ev l)],
            p_send := (if snd (recordList_Remove (registry_of p ev) ev l) = 0
                       then p_send p @ [\<lparr>c_command = verb, c_args = [Event_Name ev]\<rparr>]
                       else p_send p)\<rparr>)"
  using registry_index(1) [OF assms(1,2)] assms(3)
  by (simp add: PubsubEmitter_Unsubscribe_def split_beta Let_def)

lemma Subscribe_step:
  assumes "emitter_inv p" and "valid_kind ev"
  shows "\<exists>p' verb.
            PubsubEmitter_Subscribe p ev l = Inr p' \<and> emitter_inv p' \<and>
            EventType_SubCommand (Event_Type ev) = Inr verb \<and>
            listeners_of (registry_of p' ev) (Event_Name ev) =
              listeners_of (registry_of p ev) (Event_Name ev) @ [l] \<and>
            p_send p' =
              (if listeners_of (registry_of p ev) (Event_Name ev) = []
               then p_send p @ [\<lparr>c_command = verb, c_args = [Event_Name ev]\<rparr>]
               else p_send p)"
proof -
  note idx = registry_index [OF assms]
  from SubCommand_valid [OF assms(2)] obtain verb
    where verb: "EventType_SubCommand (Event_Type ev) = Inr verb" ..
  let ?rl = "fst (recordList_Add (registry_of p ev) ev l)"
  let ?q = "if listeners_of (registry_of p ev) (Event_Name ev) = []
               then p_send p @ [\<lparr>c_command = verb, c_args = [Event_Name ev]\<rparr>]
               else p_send p"
  let ?p' = "p\<lparr>p_subs := (p_subs p)[nat (Event_Type ev) := ?rl], p_send := ?q\<rparr>"
  have 1: "PubsubEmitter_Subscribe p ev l = Inr ?p'"
    by (rule Subscribe_result [OF assms verb])
  have "recordList_inv ?rl" using idx(3) by (rule inv_Add)
  with assms(1) have 2: "emitter_inv ?p'" by (rule emitter_inv_update)
  have 3: "registry_of ?p' ev = ?rl" using idx(2) by (rule registry_of_update)
  have 4: "listeners_of ?rl (Event_Name ev) =
      listeners_of (registry_of p ev) (Event_Name ev) @ [l]"
    by (rule listeners_of_Add)
  have 5: "p_send ?p' = ?q" by simp
  from 1 2 3 4 5 verb show ?thesis by metis
qed

lemma Unsubscribe_step:
  assumes "emitter_inv p" and "valid_kind ev"
  shows "\<exists>p' verb.
            PubsubEmitter_Unsubscribe p ev l = Inr p' \<and> emitter_inv p' \<and>
            EventType_UnsubCommand (Event_Type ev) = Inr verb \<and>
            mset (listeners_of (registry_of p' ev) (Event_Name ev)) =
              mset (listeners_of (registry_of p ev) (Event_Name ev)) - {#l#} \<and>
            p_send p' =
              (if listeners_of (registry_of p' ev) (Event_Name ev) = []
               then p_send p @ [\<lparr>c_command = verb, c_args = [Event_Name ev]\<rparr>]
               else p_send p)"
proof -
  note idx = registry_index [OF assms]
  from UnsubCommand_valid [OF assms(2)] obtain verb
    where verb: "EventType_UnsubCommand (Event_Type ev) = Inr verb" ..
  let ?res = "recordList_Remove (registry_of p ev) ev l"
  let ?q = "if snd ?res = 0
               then p_send p @ [\<lparr>c_command = verb, c_args = [Event_Name ev]\<rparr>]
               else p_send p"
  let ?p' = "p\<lparr>p_subs := (p_subs p)[nat (Event_Type ev) := fst ?res], p_send := ?q\<rparr>"
  have 1: "PubsubEmitter_Unsubscribe p ev l = Inr ?p'"
    by (rule Unsubscribe_result [OF assms verb])
  have "recordList_inv (fst ?res)" using idx(3) by (rule Remove_props(1))
  with assms(1) have 2: "emitter_inv ?p'" by (rule emitter_inv_update)
  have 3: "registry_of ?p' ev = fst ?res" using idx(2) by (rule registry_of_update)
  have 4: "mset (listeners_of (fst ?res) (Event_Name ev)) =
              mset (listeners_of (registry_of p ev) (Event_Name ev)) - {#l#}"
    using idx(3) by (rule Remove_props(2))
  have "snd ?res = 0 \<longleftrightarrow> listeners_of (fst ?res) (Event_Name ev) = []"
    using Remove_props(3) [OF idx(3), of ev l] by simp
  then have 5: "p_send ?p' =
      (if listeners_of (registry_of ?p' ev) (Event_Name ev) = []
               then p_send p @ [\<lparr>c_command = verb, c_args = [Event_Name ev]\<rparr>]
               else p_send p)"
    using 3 by simp
  from 1 2 3 4 5 verb show ?thesis by metis
qed

lemma drain_empty: "drain q = []"
  by (induction q) auto

lemma resubscribe_records_ok:
  "EventType_SubCommand kind = Inr verb \<Longrightarrow>
   resubscribe_records kind recs q =
     Inr (q @ map (\<lambda>rc. \<lparr>c_command = verb, c_args = [rec_name rc]\<rparr>) recs)"
  by (induction recs arbitrary: q) auto

lemma distinct_commands:
  "distinct (map rec_name recs) \<Longrightarrow>
   distinct (map (\<lambda>rc. \<lparr>c_command = verb, c_args = [rec_name rc]\<rparr>) recs)"
  by (induction recs) auto

lemma rec_listeners_FindCopy: "rec_listeners (recordList_FindCopy r name) = listeners_of r name"
  by (simp add: recordList_FindCopy_def listeners_of_def zero_record_def split: option.splits)

lemma handleEvent_plain:
  assumes "emitter_inv p" and "Event_Type ev = PlainEvent"
  shows "PubsubEmitter_handleEvent p (Message name b) =
     Inr (map (\<lambda>l. (l, rec_ev (recordList_FindCopy (registry_of p ev) name), b))
            (listeners_of (registry_of p ev) name))"
proof -
  from assms(2) have "valid_kind ev" by (simp add: valid_kind_def)
  from registry_index(1) [OF assms(1) this] assms(2)
  show ?thesis
    by (simp add: PubsubEmitter_handleEvent_def record_Emit_def rec_listeners_FindCopy Let_def)
qed

section \<open>The claims\<close>

subsection \<open>The emitter\<close>

text \<open>
  Claim C1. In an emitter that keeps its invariant (the new emitter does, see
  \<open>NewPubsubEmitter_inv\<close>), for an event of one of the two declared kinds, which are
  the kinds \<open>NewEvent\<close> and \<open>NewPatternEvent\<close> give:
  \<open>Subscribe\<close> returns, appends the listener to the listeners of the event's name,
  and sends exactly one command, the kind's subscribe verb with \<open>Name()\<close> as its
  argument, when the name had no listener, and none when it had one. \<open>Unsubscribe\<close>
  returns, removes at most one occurrence of the listener, and sends exactly one
  command, the kind's unsubscribe verb with \<open>Name()\<close>, when the name is left with no
  listener, and none when listeners remain. Both keep the invariant, so the statement
  applies to every later call.
\<close>

theorem C1_first_and_last_listener:
  assumes "emitter_inv p" and "valid_kind ev"
  shows "(\<exists>p' verb.
            PubsubEmitter_Subscribe p ev l = Inr p' \<and> emitter_inv p' \<and>
            EventType_SubCommand (Event_Type ev) = Inr verb \<and>
            listeners_of (registry_of p' ev) (Event_Name ev) =
              listeners_of (registry_of p ev) (Event_Name ev) @ [l] \<and>
            p_send p' =
              (if listeners_of (registry_of p ev) (Event_Name ev) = []
               then p_send p @ [\<lparr>c_command = verb, c_args = [Event_Name ev]\<rparr>]
               else p_send p)) \<and>
         (\<exists>p' verb.
            PubsubEmitter_Unsubscribe p ev l = Inr p' \<and> emitter_inv p' \<and>
            EventType_UnsubCommand (Event_Type ev) = Inr verb \<and>
            mset (listeners_of (registry_of p' ev) (Event_Name ev)) =
              mset (listeners_of (registry_of p ev) (Event_Name ev)) - {#l#} \<and>
            p_send p' =
              (if listeners_of (registry_of p' ev) (Event_Name ev) = []
               then p_send p @ [\<lparr>c_command = verb, c_args = [Event_Name ev]\<rparr>]
               else p_send p))"
  using Subscribe_step [OF assms] Unsubscribe_step [OF assms] by (rule conjI)

text \<open>The new emitter and the plain event \<open>foo\<close>: the first \<open>Subscribe\<close> sends
  \<open>SUBSCRIBE foo\<close>.\<close>

theorem C1_first_and_last_listener_witness:
  "emitter_inv (NewPubsubEmitter :: nat PubsubEmitter) \<and>
   valid_kind \<lparr>ev_fields = [String_Field ''foo''], ev_kind = PlainEvent\<rparr> \<and>
   (\<exists>p'. PubsubEmitter_Subscribe (NewPubsubEmitter :: nat PubsubEmitter)
            \<lparr>ev_fields = [String_Field ''foo''], ev_kind = PlainEvent\<rparr> 7 = Inr p' \<and>
          listeners_of
            (registry_of p' \<lparr>ev_fields = [String_Field ''foo''], ev_kind = PlainEvent\<rparr>)
            ''foo'' = [7] \<and>
          p_send p' = [\<lparr>c_command = ''SUBSCRIBE'', c_args = [''foo'']\<rparr>])"
proof -
  let ?P = "NewPubsubEmitter :: nat PubsubEmitter"
  let ?E = "\<lparr>ev_fields = [String_Field ''foo''], ev_kind = PlainEvent\<rparr>"
  have inv: "emitter_inv ?P"
    by (simp add: emitter_inv_def NewPubsubEmitter_def recordList_inv_def)
  have vk: "valid_kind ?E"
    by (simp add: valid_kind_def Event_Type_def)
  have nm: "Event_Name ?E = ''foo''"
    by (simp add: Event_Name_def String_Field_def)
  have l0: "listeners_of (registry_of ?P ?E) ''foo'' = []"
    by (simp add: listeners_of_def registry_of_def NewPubsubEmitter_def Event_Type_def
        PlainEvent_def recordList_find_def)
  have sc: "EventType_SubCommand (Event_Type ?E) = Inr ''SUBSCRIBE''"
    by (simp add: EventType_SubCommand_def Event_Type_def)
  have q0: "p_send ?P = []"
    by (simp add: NewPubsubEmitter_def)
  from C1_first_and_last_listener [OF inv vk, of 7] obtain p' verb where
    "PubsubEmitter_Subscribe ?P ?E 7 = Inr p'"
    "EventType_SubCommand (Event_Type ?E) = Inr verb"
    "listeners_of (registry_of p' ?E) (Event_Name ?E) =
       listeners_of (registry_of ?P ?E) (Event_Name ?E) @ [7]"
    "p_send p' =
       (if listeners_of (registry_of ?P ?E) (Event_Name ?E) = []
        then p_send ?P @ [\<lparr>c_command = verb, c_args = [Event_Name ?E]\<rparr>]
        else p_send ?P)"
    by blast
  with nm l0 sc q0 have
    "PubsubEmitter_Subscribe ?P ?E 7 = Inr p' \<and>
     listeners_of (registry_of p' ?E) ''foo'' = [7] \<and>
     p_send p' = [\<lparr>c_command = ''SUBSCRIBE'', c_args = [''foo'']\<rparr>]"
    by simp
  with inv vk show ?thesis by blast
qed

text \<open>
  Claim C2. \<open>resubscribe\<close> in an emitter with its two registries returns, leaves the
  registries as they are, and replaces what is pending on \<open>send\<close> by one command per
  record: \<open>SUBSCRIBE\<close> with the stored name for each record of the plain registry, then
  \<open>PSUBSCRIBE\<close> with the stored name for each record of the pattern registry. The
  commands are pairwise distinct: a name is sent once, whatever the number of its
  listeners.
\<close>

theorem C2_resubscribe_once_per_name:
  assumes "emitter_inv p"
  shows "PubsubEmitter_resubscribe p =
           Inr (p\<lparr>p_send :=
                  map (\<lambda>rc. \<lparr>c_command = ''SUBSCRIBE'', c_args = [rec_name rc]\<rparr>)
                    (rl_list (p_subs p ! 0)) @
                  map (\<lambda>rc. \<lparr>c_command = ''PSUBSCRIBE'', c_args = [rec_name rc]\<rparr>)
                    (rl_list (p_subs p ! 1))\<rparr>) \<and>
         distinct
           (map (\<lambda>rc. \<lparr>c_command = ''SUBSCRIBE'', c_args = [rec_name rc]\<rparr>)
              (rl_list (p_subs p ! 0)) @
            map (\<lambda>rc. \<lparr>c_command = ''PSUBSCRIBE'', c_args = [rec_name rc]\<rparr>)
              (rl_list (p_subs p ! 1)))"
proof
  from assms have len: "length (p_subs p) = 2" by (simp add: emitter_inv_def)
  then obtain a b where ab: "p_subs p = [a, b]"
    by (cases "p_subs p"; cases "tl (p_subs p)") auto
  have s0: "EventType_SubCommand 0 = Inr ''SUBSCRIBE''"
    by (simp add: EventType_SubCommand_def PlainEvent_def)
  have s1: "EventType_SubCommand 1 = Inr ''PSUBSCRIBE''"
    by (simp add: EventType_SubCommand_def PlainEvent_def PatternEvent_def)
  show "PubsubEmitter_resubscribe p =
           Inr (p\<lparr>p_send :=
                  map (\<lambda>rc. \<lparr>c_command = ''SUBSCRIBE'', c_args = [rec_name rc]\<rparr>)
                    (rl_list (p_subs p ! 0)) @
                  map (\<lambda>rc. \<lparr>c_command = ''PSUBSCRIBE'', c_args = [rec_name rc]\<rparr>)
                    (rl_list (p_subs p ! 1))\<rparr>)"
    by (simp add: PubsubEmitter_resubscribe_def ab drain_empty
        resubscribe_records_ok [OF s0] resubscribe_records_ok [OF s1])
  from assms ab have "distinct (map rec_name (rl_list a))" "distinct (map rec_name (rl_list b))"
    by (simp_all add: emitter_inv_def recordList_inv_def)
  then have "distinct (map (\<lambda>rc. \<lparr>c_command = ''SUBSCRIBE'', c_args = [rec_name rc]\<rparr>) (rl_list a))"
    "distinct (map (\<lambda>rc. \<lparr>c_command = ''PSUBSCRIBE'', c_args = [rec_name rc]\<rparr>) (rl_list b))"
    by (simp_all only: distinct_commands)
  then show "distinct
           (map (\<lambda>rc. \<lparr>c_command = ''SUBSCRIBE'', c_args = [rec_name rc]\<rparr>)
              (rl_list (p_subs p ! 0)) @
            map (\<lambda>rc. \<lparr>c_command = ''PSUBSCRIBE'', c_args = [rec_name rc]\<rparr>)
              (rl_list (p_subs p ! 1)))"
    by (auto simp: ab)
qed

text \<open>An emitter with two listeners on the plain name \<open>foo\<close>, one on the pattern
  \<open>bar*\<close> and a command pending: the pending command is dropped and two commands
  are sent.\<close>

theorem C2_resubscribe_once_per_name_witness:
  "emitter_inv
     \<lparr>p_send = [\<lparr>c_command = ''UNSUBSCRIBE'', c_args = [''old'']\<rparr>],
      p_subs =
        [\<lparr>rl_list =
            [\<lparr>rec_name = ''foo'',
              rec_ev = \<lparr>ev_fields = [String_Field ''foo''], ev_kind = PlainEvent\<rparr>,
              rec_listeners = [1, 2 :: nat]\<rparr>]\<rparr>,
         \<lparr>rl_list =
            [\<lparr>rec_name = ''bar*'',
              rec_ev = \<lparr>ev_fields = [String_Field ''bar'', Star], ev_kind = PatternEvent\<rparr>,
              rec_listeners = [3]\<rparr>]\<rparr>]\<rparr> \<and>
   PubsubEmitter_resubscribe
     \<lparr>p_send = [\<lparr>c_command = ''UNSUBSCRIBE'', c_args = [''old'']\<rparr>],
      p_subs =
        [\<lparr>rl_list =
            [\<lparr>rec_name = ''foo'',
              rec_ev = \<lparr>ev_fields = [String_Field ''foo''], ev_kind = PlainEvent\<rparr>,
              rec_listeners = [1, 2 :: nat]\<rparr>]\<rparr>,
         \<lparr>rl_list =
            [\<lparr>rec_name = ''bar*'',
              rec_ev = \<lparr>ev_fields = [String_Field ''bar'', Star], ev_kind = PatternEvent\<rparr>,
              rec_listeners = [3]\<rparr>]\<rparr>]\<rparr> =
   Inr \<lparr>p_send =
          [\<lparr>c_command = ''SUBSCRIBE'', c_args = [''foo'']\<rparr>,
           \<lparr>c_command = ''PSUBSCRIBE'', c_args = [''bar*'']\<rparr>],
        p_subs =
        [\<lparr>rl_list =
            [\<lparr>rec_name = ''foo'',
              rec_ev = \<lparr>ev_fields = [String_Field ''foo''], ev_kind = PlainEvent\<rparr>,
              rec_listeners = [1, 2 :: nat]\<rparr>]\<rparr>,
         \<lparr>rl_list =
            [\<lparr>rec_name = ''bar*'',
              rec_ev = \<lparr>ev_fields = [String_Field ''bar'', Star], ev_kind = PatternEvent\<rparr>,
              rec_listeners = [3]\<rparr>]\<rparr>]\<rparr>"
proof -
  let ?P = "\<lparr>p_send = [\<lparr>c_command = ''UNSUBSCRIBE'', c_args = [''old'']\<rparr>],
      p_subs =
        [\<lparr>rl_list =
            [\<lparr>rec_name = ''foo'',
              rec_ev = \<lparr>ev_fields = [String_Field ''foo''], ev_kind = PlainEvent\<rparr>,
              rec_listeners = [1, 2 :: nat]\<rparr>]\<rparr>,
         \<lparr>rl_list =
            [\<lparr>rec_name = ''bar*'',
              rec_ev = \<lparr>ev_fields = [String_Field ''bar'', Star], ev_kind = PatternEvent\<rparr>,
              rec_listeners = [3]\<rparr>]\<rparr>]\<rparr>"
  have inv: "emitter_inv ?P"
    by (simp add: emitter_inv_def recordList_inv_def)
  from C2_resubscribe_once_per_name [OF inv] inv show ?thesis by simp
qed

text \<open>
  Claim C9. \<open>Unsubscribe\<close> for an event whose name has no record in its registry:
  \<open>Remove\<close> returns 0 and the registry as it was, and the emitter sends the kind's
  unsubscribe command with \<open>Name()\<close>; nothing but \<open>send\<close> changes.
\<close>

theorem C9_unsubscribe_without_record:
  assumes "emitter_inv p" and "valid_kind ev"
    and "recordList_find (registry_of p ev) (Event_Name ev) = None"
  shows "recordList_Remove (registry_of p ev) ev l = (registry_of p ev, 0) \<and>
         (\<exists>verb. EventType_UnsubCommand (Event_Type ev) = Inr verb \<and>
            PubsubEmitter_Unsubscribe p ev l =
              Inr (p\<lparr>p_send := p_send p @
                       [\<lparr>c_command = verb, c_args = [Event_Name ev]\<rparr>]\<rparr>))"
proof -
  from UnsubCommand_valid [OF assms(2)] obtain verb
    where verb: "EventType_UnsubCommand (Event_Type ev) = Inr verb" ..
  have rem: "recordList_Remove (registry_of p ev) ev l = (registry_of p ev, 0)"
    using assms(3) by (simp add: recordList_Remove_def)
  have same: "(p_subs p)[nat (Event_Type ev) := registry_of p ev] = p_subs p"
    by (simp add: registry_of_def)
  have "PubsubEmitter_Unsubscribe p ev l =
              Inr (p\<lparr>p_send := p_send p @
                       [\<lparr>c_command = verb, c_args = [Event_Name ev]\<rparr>]\<rparr>)"
    using Unsubscribe_result [OF assms(1,2) verb, of l] rem same by simp
  with rem verb show ?thesis by blast
qed

text \<open>The new emitter, where nothing was ever subscribed: \<open>Unsubscribe\<close> of the pattern
  event \<open>foo\<close> sends \<open>PUNSUBSCRIBE foo\<close>.\<close>

theorem C9_unsubscribe_without_record_witness:
  "emitter_inv (NewPubsubEmitter :: nat PubsubEmitter) \<and>
   valid_kind \<lparr>ev_fields = [String_Field ''foo''], ev_kind = PatternEvent\<rparr> \<and>
   recordList_find
     (registry_of (NewPubsubEmitter :: nat PubsubEmitter)
        \<lparr>ev_fields = [String_Field ''foo''], ev_kind = PatternEvent\<rparr>)
     (Event_Name \<lparr>ev_fields = [String_Field ''foo''], ev_kind = PatternEvent\<rparr>) = None \<and>
   PubsubEmitter_Unsubscribe (NewPubsubEmitter :: nat PubsubEmitter)
     \<lparr>ev_fields = [String_Field ''foo''], ev_kind = PatternEvent\<rparr> 7 =
   Inr \<lparr>p_send = [\<lparr>c_command = ''PUNSUBSCRIBE'', c_args = [''foo'']\<rparr>],
        p_subs = [\<lparr>rl_list = []\<rparr>, \<lparr>rl_list = []\<rparr>]\<rparr>"
proof -
  let ?P = "NewPubsubEmitter :: nat PubsubEmitter"
  let ?E = "\<lparr>ev_fields = [String_Field ''foo''], ev_kind = PatternEvent\<rparr>"
  have inv: "emitter_inv ?P"
    by (simp add: emitter_inv_def NewPubsubEmitter_def recordList_inv_def)
  have vk: "valid_kind ?E"
    by (simp add: valid_kind_def Event_Type_def)
  have nm: "Event_Name ?E = ''foo''"
    by (simp add: Event_Name_def String_Field_def)
  have f0: "recordList_find (registry_of ?P ?E) (Event_Name ?E) = None"
    by (simp add: registry_of_def NewPubsubEmitter_def Event_Type_def
        PatternEvent_def recordList_find_def)
  have uc: "EventType_UnsubCommand (Event_Type ?E) = Inr ''PUNSUBSCRIBE''"
    by (simp add: EventType_UnsubCommand_def Event_Type_def PatternEvent_def PlainEvent_def)
  from C9_unsubscribe_without_record [OF inv vk f0, of 7] uc nm
  have "PubsubEmitter_Unsubscribe ?P ?E 7 =
     Inr \<lparr>p_send = [\<lparr>c_command = ''PUNSUBSCRIBE'', c_args = [''foo'']\<rparr>],
          p_subs = [\<lparr>rl_list = []\<rparr>, \<lparr>rl_list = []\<rparr>]\<rparr>"
    by (auto simp: NewPubsubEmitter_def)
  with inv vk f0 show ?thesis by blast
qed

subsection \<open>The registry\<close>

text \<open>
  Claim C3. In a registry that keeps its invariant (every registry that \<open>Add\<close> and
  \<open>Remove\<close> build from the empty one does, see \<open>run_registry_ops_inv\<close>): \<open>Add\<close>
  under a name with no record returns 1 and creates the record, with the event and
  the one listener;
  \<open>Add\<close> always returns the number of listeners the name had plus one, so a second
  \<open>Add\<close> under the new name returns 2; \<open>Remove\<close> of the only listener of a name
  returns 0 and deletes the record, and \<open>Add\<close> under that name then returns 1 again;
  \<open>Remove\<close> under a name with no record returns 0 and changes nothing.
\<close>

theorem C3_registry_counts:
  assumes "recordList_inv r"
  shows "(recordList_find r (Event_Name ev) = None \<longrightarrow>
            snd (recordList_Add r ev fn) = 1 \<and>
            recordList_find (fst (recordList_Add r ev fn)) (Event_Name ev) =
              Some (length (rl_list r),
                    \<lparr>rec_name = Event_Name ev, rec_ev = ev, rec_listeners = [fn]\<rparr>)) \<and>
         snd (recordList_Add r ev fn) = int (length (listeners_of r (Event_Name ev))) + 1 \<and>
         (recordList_find r (Event_Name ev) = None \<longrightarrow> Event_Name ev2 = Event_Name ev \<longrightarrow>
            snd (recordList_Add (fst (recordList_Add r ev fn)) ev2 fn2) = 2) \<and>
         (listeners_of r (Event_Name ev) = [fn] \<longrightarrow>
            snd (recordList_Remove r ev fn) = 0 \<and>
            recordList_find (fst (recordList_Remove r ev fn)) (Event_Name ev) = None \<and>
            snd (recordList_Add (fst (recordList_Remove r ev fn)) ev fn2) = 1) \<and>
         (recordList_find r (Event_Name ev) = None \<longrightarrow> recordList_Remove r ev fn = (r, 0))"
proof -
  have new: "recordList_find r (Event_Name ev) = None \<longrightarrow>
            snd (recordList_Add r ev fn) = 1 \<and>
            recordList_find (fst (recordList_Add r ev fn)) (Event_Name ev) =
              Some (length (rl_list r),
                    \<lparr>rec_name = Event_Name ev, rec_ev = ev, rec_listeners = [fn]\<rparr>)"
    using Add_new [of r ev fn] find_Add_new [of r ev fn] by auto
  have cnt: "snd (recordList_Add r ev fn) = int (length (listeners_of r (Event_Name ev))) + 1"
    by (rule snd_Add)
  have second: "recordList_find r (Event_Name ev) = None \<longrightarrow> Event_Name ev2 = Event_Name ev \<longrightarrow>
            snd (recordList_Add (fst (recordList_Add r ev fn)) ev2 fn2) = 2"
  proof (intro impI)
    assume n: "recordList_find r (Event_Name ev) = None" and e: "Event_Name ev2 = Event_Name ev"
    have "listeners_of (fst (recordList_Add r ev fn)) (Event_Name ev2) = [fn]"
      using listeners_of_Add [of r ev fn] n e by (simp add: listeners_of_def)
    then show "snd (recordList_Add (fst (recordList_Add r ev fn)) ev2 fn2) = 2"
      by (simp add: snd_Add)
  qed
  have sole: "listeners_of r (Event_Name ev) = [fn] \<longrightarrow>
            snd (recordList_Remove r ev fn) = 0 \<and>
            recordList_find (fst (recordList_Remove r ev fn)) (Event_Name ev) = None \<and>
            snd (recordList_Add (fst (recordList_Remove r ev fn)) ev fn2) = 1"
  proof
    assume l: "listeners_of r (Event_Name ev) = [fn]"
    let ?r' = "fst (recordList_Remove r ev fn)"
    have "mset (listeners_of ?r' (Event_Name ev)) = {#}"
      using Remove_props(2) [OF assms, of ev fn] l by simp
    then have e: "listeners_of ?r' (Event_Name ev) = []" by simp
    then have z: "snd (recordList_Remove r ev fn) = 0"
      using Remove_props(3) [OF assms, of ev fn] by simp
    then have f: "recordList_find ?r' (Event_Name ev) = None"
      using Remove_props(4) [OF assms, of ev fn] by simp
    have "snd (recordList_Add ?r' ev fn2) = 1"
      using e by (simp add: snd_Add)
    with z f show "snd (recordList_Remove r ev fn) = 0 \<and>
            recordList_find ?r' (Event_Name ev) = None \<and>
            snd (recordList_Add ?r' ev fn2) = 1" by simp
  qed
  have absent: "recordList_find r (Event_Name ev) = None \<longrightarrow> recordList_Remove r ev fn = (r, 0)"
    by (simp add: recordList_Remove_def)
  from new cnt second sole absent show ?thesis by blast
qed

text \<open>The empty registry, for the calls under a new name, and the registry with one
  listener on \<open>foo\<close>, for the removal of the only listener.\<close>

theorem C3_registry_counts_witness:
  "recordList_inv (\<lparr>rl_list = []\<rparr> :: nat recordList) \<and>
   recordList_find (\<lparr>rl_list = []\<rparr> :: nat recordList)
     (Event_Name \<lparr>ev_fields = [String_Field ''foo''], ev_kind = PlainEvent\<rparr>) = None \<and>
   snd (recordList_Add (\<lparr>rl_list = []\<rparr> :: nat recordList)
     \<lparr>ev_fields = [String_Field ''foo''], ev_kind = PlainEvent\<rparr> 1) = 1 \<and>
   snd (recordList_Add
     (fst (recordList_Add (\<lparr>rl_list = []\<rparr> :: nat recordList)
        \<lparr>ev_fields = [String_Field ''foo''], ev_kind = PlainEvent\<rparr> 1))
     \<lparr>ev_fields = [String_Field ''fo'', String_Field ''o''], ev_kind = PlainEvent\<rparr> 2) = 2 \<and>
   recordList_Remove (\<lparr>rl_list = []\<rparr> :: nat recordList)
     \<lparr>ev_fields = [String_Field ''foo''], ev_kind = PlainEvent\<rparr> 1 = (\<lparr>rl_list = []\<rparr>, 0) \<and>
   recordList_inv
     \<lparr>rl_list = [\<lparr>rec_name = ''foo'',
                  rec_ev = \<lparr>ev_fields = [String_Field ''foo''], ev_kind = PlainEvent\<rparr>,
                  rec_listeners = [1 :: nat]\<rparr>]\<rparr> \<and>
   listeners_of
     \<lparr>rl_list = [\<lparr>rec_name = ''foo'',
                  rec_ev = \<lparr>ev_fields = [String_Field ''foo''], ev_kind = PlainEvent\<rparr>,
                  rec_listeners = [1 :: nat]\<rparr>]\<rparr>
     (Event_Name \<lparr>ev_fields = [String_Field ''foo''], ev_kind = PlainEvent\<rparr>) = [1] \<and>
   snd (recordList_Remove
     \<lparr>rl_list = [\<lparr>rec_name = ''foo'',
                  rec_ev = \<lparr>ev_fields = [String_Field ''foo''], ev_kind = PlainEvent\<rparr>,
                  rec_listeners = [1 :: nat]\<rparr>]\<rparr>
     \<lparr>ev_fields = [String_Field ''foo''], ev_kind = PlainEvent\<rparr> 1) = 0 \<and>
   snd (recordList_Add
     (fst (recordList_Remove
        \<lparr>rl_list = [\<lparr>rec_name = ''foo'',
                     rec_ev = \<lparr>ev_fields = [String_Field ''foo''], ev_kind = PlainEvent\<rparr>,
                     rec_listeners = [1 :: nat]\<rparr>]\<rparr>
        \<lparr>ev_fields = [String_Field ''foo''], ev_kind = PlainEvent\<rparr> 1))
     \<lparr>ev_fields = [String_Field ''foo''], ev_kind = PlainEvent\<rparr> 2) = 1"
proof -
  let ?E = "\<lparr>ev_fields = [String_Field ''foo''], ev_kind = PlainEvent\<rparr>"
  let ?E2 = "\<lparr>ev_fields = [String_Field ''fo'', String_Field ''o''], ev_kind = PlainEvent\<rparr>"
  let ?R0 = "\<lparr>rl_list = []\<rparr> :: nat recordList"
  let ?R1 = "\<lparr>rl_list = [\<lparr>rec_name = ''foo'', rec_ev = ?E, rec_listeners = [1 :: nat]\<rparr>]\<rparr>"
  have nm: "Event_Name ?E = ''foo''" "Event_Name ?E2 = ''foo''"
    by (simp_all add: Event_Name_def String_Field_def)
  have i0: "recordList_inv ?R0" by (simp add: recordList_inv_def)
  have f0: "recordList_find ?R0 (Event_Name ?E) = None" by (simp add: recordList_find_def)
  have i1: "recordList_inv ?R1" by (simp add: recordList_inv_def)
  have l1: "listeners_of ?R1 (Event_Name ?E) = [1]"
    by (simp add: nm listeners_of_def recordList_find_def)
  from C3_registry_counts [OF i0, of ?E 1 ?E2 2] f0 nm
  have a: "snd (recordList_Add ?R0 ?E 1) = 1"
    "snd (recordList_Add (fst (recordList_Add ?R0 ?E 1)) ?E2 2) = 2"
    "recordList_Remove ?R0 ?E 1 = (?R0, 0)"
    by simp_all
  from C3_registry_counts [OF i1, of ?E 1 ?E 2] l1
  have b: "snd (recordList_Remove ?R1 ?E 1) = 0"
    "snd (recordList_Add (fst (recordList_Remove ?R1 ?E 1)) ?E 2) = 1"
    by simp_all
  from i0 f0 a i1 l1 b show ?thesis by simp
qed

text \<open>
  Claim C4. Whatever sequence of \<open>Add\<close> and \<open>Remove\<close> calls is run on the empty
  registry, no two records of the result have the same name.
\<close>

theorem C4_one_record_per_name:
  "distinct (map rec_name (rl_list (run_registry_ops ops)))"
  using run_registry_ops_inv [of ops] by (simp add: recordList_inv_def)

text \<open>
  Claim C10. \<open>Remove\<close> takes at most one occurrence of the listener out of the
  listeners of the name: as multisets, the listeners after are the listeners before
  less one \<open>fn\<close>; the occurrence taken is the first, whose slot the last listener
  fills. When a name with no record is subscribed twice with the same listener, the
  first \<open>Unsubscribe\<close> leaves the listener registered once and sends nothing, the
  record still calls the listener exactly once (and so does \<open>handleEvent\<close> on a
  message for the name, when the event is plain), and the second \<open>Unsubscribe\<close>
  sends the unsubscribe command and leaves no record.
\<close>

theorem C10_one_Remove_one_occurrence:
  assumes "emitter_inv p" and "valid_kind ev"
  shows "mset (listeners_of (fst (recordList_Remove (registry_of p ev) ev fn)) (Event_Name ev)) =
           mset (listeners_of (registry_of p ev) (Event_Name ev)) - {#fn#} \<and>
         (listeners_of (registry_of p ev) (Event_Name ev) = xs @ fn # ys \<and> fn \<notin> set xs \<longrightarrow>
            listeners_of (fst (recordList_Remove (registry_of p ev) ev fn)) (Event_Name ev) =
              cut_at (xs @ fn # ys) (length xs)) \<and>
         (recordList_find (registry_of p ev) (Event_Name ev) = None \<longrightarrow>
           (\<exists>p1 p2 p3 p4 verb.
              PubsubEmitter_Subscribe p ev l = Inr p1 \<and>
              PubsubEmitter_Subscribe p1 ev l = Inr p2 \<and>
              listeners_of (registry_of p2 ev) (Event_Name ev) = [l, l] \<and>
              PubsubEmitter_Unsubscribe p2 ev l = Inr p3 \<and>
              listeners_of (registry_of p3 ev) (Event_Name ev) = [l] \<and>
              p_send p3 = p_send p2 \<and>
              record_Emit (recordList_FindCopy (registry_of p3 ev) (Event_Name ev)) e b =
                [(l, e, b)] \<and>
              (Event_Type ev = PlainEvent \<longrightarrow>
                 (\<exists>e'. PubsubEmitter_handleEvent p3 (Message (Event_Name ev) b) =
                          Inr [(l, e', b)])) \<and>
              PubsubEmitter_Unsubscribe p3 ev l = Inr p4 \<and>
              EventType_UnsubCommand (Event_Type ev) = Inr verb \<and>
              p_send p4 = p_send p3 @ [\<lparr>c_command = verb, c_args = [Event_Name ev]\<rparr>] \<and>
              recordList_find (registry_of p4 ev) (Event_Name ev) = None))"
proof (intro conjI impI)
  show "mset (listeners_of (fst (recordList_Remove (registry_of p ev) ev fn)) (Event_Name ev)) =
           mset (listeners_of (registry_of p ev) (Event_Name ev)) - {#fn#}"
    using registry_index(3) [OF assms(1,2)] by (rule Remove_props(2))
next
  assume "listeners_of (registry_of p ev) (Event_Name ev) = xs @ fn # ys \<and> fn \<notin> set xs"
  then show "listeners_of (fst (recordList_Remove (registry_of p ev) ev fn)) (Event_Name ev) =
              cut_at (xs @ fn # ys) (length xs)"
    using Remove_props(5) [OF registry_index(3) [OF assms(1,2)], of ev fn]
    by (simp add: first_index_split)
next
  assume absent: "recordList_find (registry_of p ev) (Event_Name ev) = None"
  let ?n = "Event_Name ev"
  have l0: "listeners_of (registry_of p ev) ?n = []"
    using absent by (simp add: listeners_of_def)
  from Subscribe_step [OF assms(1,2), of l] obtain p1 where
    s1: "PubsubEmitter_Subscribe p ev l = Inr p1" and i1: "emitter_inv p1"
    and l1: "listeners_of (registry_of p1 ev) ?n = listeners_of (registry_of p ev) ?n @ [l]"
    by blast
  from Subscribe_step [OF i1 assms(2), of l] obtain p2 where
    s2: "PubsubEmitter_Subscribe p1 ev l = Inr p2" and i2: "emitter_inv p2"
    and l2: "listeners_of (registry_of p2 ev) ?n = listeners_of (registry_of p1 ev) ?n @ [l]"
    by blast
  from l0 l1 l2 have l2': "listeners_of (registry_of p2 ev) ?n = [l, l]" by simp
  from Unsubscribe_step [OF i2 assms(2), of l] obtain p3 v3 where
    u3: "PubsubEmitter_Unsubscribe p2 ev l = Inr p3" and i3: "emitter_inv p3"
    and m3: "mset (listeners_of (registry_of p3 ev) ?n) =
               mset (listeners_of (registry_of p2 ev) ?n) - {#l#}"
    and q3: "p_send p3 =
              (if listeners_of (registry_of p3 ev) ?n = []
               then p_send p2 @ [\<lparr>c_command = v3, c_args = [?n]\<rparr>]
               else p_send p2)"
    by blast
  from m3 l2' have l3: "listeners_of (registry_of p3 ev) ?n = [l]" by simp
  with q3 have q3': "p_send p3 = p_send p2" by simp
  have em: "record_Emit (recordList_FindCopy (registry_of p3 ev) ?n) e b = [(l, e, b)]"
    by (simp add: record_Emit_def rec_listeners_FindCopy l3)
  have he: "Event_Type ev = PlainEvent \<longrightarrow>
               (\<exists>e'. PubsubEmitter_handleEvent p3 (Message ?n b) = Inr [(l, e', b)])"
    using handleEvent_plain [OF i3, of ev ?n b] l3 by auto
  from Unsubscribe_step [OF i3 assms(2), of l] obtain p4 verb where
    u4: "PubsubEmitter_Unsubscribe p3 ev l = Inr p4" and i4: "emitter_inv p4"
    and v4: "EventType_UnsubCommand (Event_Type ev) = Inr verb"
    and m4: "mset (listeners_of (registry_of p4 ev) ?n) =
               mset (listeners_of (registry_of p3 ev) ?n) - {#l#}"
    and q4: "p_send p4 =
              (if listeners_of (registry_of p4 ev) ?n = []
               then p_send p3 @ [\<lparr>c_command = verb, c_args = [?n]\<rparr>]
               else p_send p3)"
    by blast
  from m4 l3 have l4: "listeners_of (registry_of p4 ev) ?n = []" by simp
  with q4 have q4': "p_send p4 = p_send p3 @ [\<lparr>c_command = verb, c_args = [?n]\<rparr>]" by simp
  have f4: "recordList_find (registry_of p4 ev) ?n = None"
    using listeners_of_empty_iff [OF registry_index(3) [OF i4 assms(2)], of ?n] l4 by simp
  from s1 s2 l2' u3 l3 q3' em he u4 v4 q4' f4
  show "\<exists>p1 p2 p3 p4 verb.
            PubsubEmitter_Subscribe p ev l = Inr p1 \<and>
            PubsubEmitter_Subscribe p1 ev l = Inr p2 \<and>
            listeners_of (registry_of p2 ev) (Event_Name ev) = [l, l] \<and>
            PubsubEmitter_Unsubscribe p2 ev l = Inr p3 \<and>
            listeners_of (registry_of p3 ev) (Event_Name ev) = [l] \<and>
            p_send p3 = p_send p2 \<and>
            record_Emit (recordList_FindCopy (registry_of p3 ev) (Event_Name ev)) e b =
              [(l, e, b)] \<and>
            (Event_Type ev = PlainEvent \<longrightarrow>
               (\<exists>e'. PubsubEmitter_handleEvent p3 (Message (Event_Name ev) b) =
                        Inr [(l, e', b)])) \<and>
            PubsubEmitter_Unsubscribe p3 ev l = Inr p4 \<and>
            EventType_UnsubCommand (Event_Type ev) = Inr verb \<and>
            p_send p4 = p_send p3 @ [\<lparr>c_command = verb, c_args = [Event_Name ev]\<rparr>] \<and>
            recordList_find (registry_of p4 ev) (Event_Name ev) = None"
    by blast
qed

text \<open>The new emitter, the plain event \<open>foo\<close> and the listener 7, subscribed twice:
  after one \<open>Unsubscribe\<close> a message on \<open>foo\<close> still reaches the listener. And an
  emitter where \<open>foo\<close> has the listeners 7, 8, 7, 9: \<open>Remove\<close> of 7 leaves 9, 8, 7.\<close>

theorem C10_one_Remove_one_occurrence_witness:
  "emitter_inv (NewPubsubEmitter :: nat PubsubEmitter) \<and>
   valid_kind \<lparr>ev_fields = [String_Field ''foo''], ev_kind = PlainEvent\<rparr> \<and>
   recordList_find
     (registry_of (NewPubsubEmitter :: nat PubsubEmitter)
        \<lparr>ev_fields = [String_Field ''foo''], ev_kind = PlainEvent\<rparr>)
     (Event_Name \<lparr>ev_fields = [String_Field ''foo''], ev_kind = PlainEvent\<rparr>) = None \<and>
   (\<exists>p1 p2 p3 p4 e'.
      PubsubEmitter_Subscribe (NewPubsubEmitter :: nat PubsubEmitter)
        \<lparr>ev_fields = [String_Field ''foo''], ev_kind = PlainEvent\<rparr> 7 = Inr p1 \<and>
      PubsubEmitter_Subscribe p1
        \<lparr>ev_fields = [String_Field ''foo''], ev_kind = PlainEvent\<rparr> 7 = Inr p2 \<and>
      PubsubEmitter_Unsubscribe p2
        \<lparr>ev_fields = [String_Field ''foo''], ev_kind = PlainEvent\<rparr> 7 = Inr p3 \<and>
      p_send p3 = p_send p2 \<and>
      PubsubEmitter_handleEvent p3 (Message ''foo'' ''bar'') = Inr [(7, e', ''bar'')] \<and>
      PubsubEmitter_Unsubscribe p3
        \<lparr>ev_fields = [String_Field ''foo''], ev_kind = PlainEvent\<rparr> 7 = Inr p4 \<and>
      p_send p4 = p_send p3 @ [\<lparr>c_command = ''UNSUBSCRIBE'', c_args = [''foo'']\<rparr>]) \<and>
   emitter_inv
     \<lparr>p_send = [],
      p_subs =
        [\<lparr>rl_list =
            [\<lparr>rec_name = ''foo'',
              rec_ev = \<lparr>ev_fields = [String_Field ''foo''], ev_kind = PlainEvent\<rparr>,
              rec_listeners = [7, 8, 7, 9 :: nat]\<rparr>]\<rparr>,
         \<lparr>rl_list = []\<rparr>]\<rparr> \<and>
   listeners_of
     (fst (recordList_Remove
        \<lparr>rl_list =
            [\<lparr>rec_name = ''foo'',
              rec_ev = \<lparr>ev_fields = [String_Field ''foo''], ev_kind = PlainEvent\<rparr>,
              rec_listeners = [7, 8, 7, 9 :: nat]\<rparr>]\<rparr>
        \<lparr>ev_fields = [String_Field ''foo''], ev_kind = PlainEvent\<rparr> 7)) ''foo'' =
     [9, 8, 7]"
proof -
  let ?P = "NewPubsubEmitter :: nat PubsubEmitter"
  let ?E = "\<lparr>ev_fields = [String_Field ''foo''], ev_kind = PlainEvent\<rparr>"
  let ?R = "\<lparr>rl_list = [\<lparr>rec_name = ''foo'', rec_ev = ?E, rec_listeners = [7, 8, 7, 9 :: nat]\<rparr>]\<rparr>"
  let ?Q = "\<lparr>p_send = [], p_subs = [?R, \<lparr>rl_list = []\<rparr>]\<rparr>"
  have inv: "emitter_inv ?P"
    by (simp add: emitter_inv_def NewPubsubEmitter_def recordList_inv_def)
  have vk: "valid_kind ?E"
    by (simp add: valid_kind_def Event_Type_def)
  have nm: "Event_Name ?E = ''foo''"
    by (simp add: Event_Name_def String_Field_def)
  have pl: "Event_Type ?E = PlainEvent"
    by (simp add: Event_Type_def)
  have f0: "recordList_find (registry_of ?P ?E) (Event_Name ?E) = None"
    by (simp add: registry_of_def NewPubsubEmitter_def Event_Type_def
        PlainEvent_def recordList_find_def)
  have uc: "EventType_UnsubCommand (Event_Type ?E) = Inr ''UNSUBSCRIBE''"
    by (simp add: EventType_UnsubCommand_def Event_Type_def)
  note at_new = C10_one_Remove_one_occurrence [OF inv vk, of 7 "[]" "[]" 7 ?E "''bar''"]
  from at_new [THEN conjunct2, THEN conjunct2] f0
  obtain p1 p2 p3 p4 verb where
    "PubsubEmitter_Subscribe ?P ?E 7 = Inr p1"
    "PubsubEmitter_Subscribe p1 ?E 7 = Inr p2"
    "PubsubEmitter_Unsubscribe p2 ?E 7 = Inr p3"
    "p_send p3 = p_send p2"
    "Event_Type ?E = PlainEvent \<longrightarrow>
       (\<exists>e'. PubsubEmitter_handleEvent p3 (Message (Event_Name ?E) ''bar'') =
                Inr [(7, e', ''bar'')])"
    "PubsubEmitter_Unsubscribe p3 ?E 7 = Inr p4"
    "EventType_UnsubCommand (Event_Type ?E) = Inr verb"
    "p_send p4 = p_send p3 @ [\<lparr>c_command = verb, c_args = [Event_Name ?E]\<rparr>]"
    by blast
  with nm pl uc have a:
    "\<exists>p1 p2 p3 p4 e'. PubsubEmitter_Subscribe ?P ?E 7 = Inr p1 \<and>
      PubsubEmitter_Subscribe p1 ?E 7 = Inr p2 \<and>
      PubsubEmitter_Unsubscribe p2 ?E 7 = Inr p3 \<and>
      p_send p3 = p_send p2 \<and>
      PubsubEmitter_handleEvent p3 (Message ''foo'' ''bar'') = Inr [(7, e', ''bar'')] \<and>
      PubsubEmitter_Unsubscribe p3 ?E 7 = Inr p4 \<and>
      p_send p4 = p_send p3 @ [\<lparr>c_command = ''UNSUBSCRIBE'', c_args = [''foo'']\<rparr>]"
    by auto
  have invq: "emitter_inv ?Q"
    by (simp add: emitter_inv_def recordList_inv_def)
  have rq: "registry_of ?Q ?E = ?R"
    by (simp add: registry_of_def Event_Type_def PlainEvent_def)
  have lq: "listeners_of ?R ''foo'' = [] @ 7 # [8, 7, 9]"
    by (simp add: listeners_of_def recordList_find_def)
  note at_q = C10_one_Remove_one_occurrence [OF invq vk, of 7 "[]" "[8, 7, 9]" 7 ?E "''bar''"]
  from at_q [THEN conjunct2, THEN conjunct1] rq lq nm
  have b: "listeners_of (fst (recordList_Remove ?R ?E 7)) ''foo'' = [9, 8, 7]"
    by (simp add: cut_at_def)
  from inv vk f0 a invq b show ?thesis by blast
qed

subsection \<open>Events and fields\<close>

text \<open>
  Claim C5. For an event with the fields \<open>f0, f1, \<dots>, fn\<close>, of either kind,
  \<open>Name()\<close> is the concatenation of the fields' values in order and \<open>Len()\<close> is
  \<open>n + 1\<close>; \<open>NewEvent\<close> and \<open>NewPatternEvent\<close> build the event with exactly
  these fields.
\<close>

theorem C5_Name_and_Len:
  "Event_Name \<lparr>ev_fields = f0 # fs, ev_kind = k\<rparr> = concat (map f_value (f0 # fs)) \<and>
   Event_Len \<lparr>ev_fields = f0 # fs, ev_kind = k\<rparr> = int (length fs) + 1 \<and>
   NewEvent (GoField f0) fs = Inr \<lparr>ev_fields = f0 # fs, ev_kind = PlainEvent\<rparr> \<and>
   NewPatternEvent (GoField f0) fs = Inr \<lparr>ev_fields = f0 # fs, ev_kind = PatternEvent\<rparr>"
  by (simp add: Event_Name_def Event_Len_def Join_concat NewEvent_def NewPatternEvent_def)

text \<open>
  Claim C6. \<open>Get(i)\<close> is claimed never to fail, for any integer \<open>i\<close>, negative ones
  included. The code compares \<open>i\<close> with the length only from above, so a negative
  index reaches \<open>e.fields[i]\<close> and the runtime panics: here \<open>NewEvent("foo").Get(-1)\<close>.
  (For \<open>0 \<le> i\<close> the claim holds, see \<open>Event_Get_in_range\<close>.)
\<close>

theorem C6_Get_negative_index_panics:
  "NewEvent (GoString ''foo'') [] =
     Inr \<lparr>ev_fields = [String_Field ''foo''], ev_kind = PlainEvent\<rparr> \<and>
   Event_Get \<lparr>ev_fields = [String_Field ''foo''], ev_kind = PlainEvent\<rparr> (- 1) =
     Inl IndexOutOfRange"
  by (simp add: NewEvent_def Event_Get_def slice_index_def)

text \<open>
  Claim C7, as amended. \<open>Find(a)\<close> returns the absent field when no field has the
  alias \<open>a\<close>, and the first field with the alias \<open>a\<close> otherwise; its result is the
  absent field or a field of the event whose alias is \<open>a\<close>. A field without an alias
  has the empty alias: for a non-empty \<open>a\<close> it never matches, that is, the lookup
  gives the same with the field taken out of the event.
\<close>

theorem C7_Find_first_alias:
  "((\<forall>f \<in> set (ev_fields e). f_alias f \<noteq> a) \<longrightarrow>
      Event_Find e a = zero_Field \<and> Field_IsZero (Event_Find e a)) \<and>
   (i < length (ev_fields e) \<and> f_alias (ev_fields e ! i) = a \<and>
      (\<forall>j<i. f_alias (ev_fields e ! j) \<noteq> a) \<longrightarrow>
      Event_Find e a = ev_fields e ! i) \<and>
   (Event_Find e a = zero_Field \<or>
      Event_Find e a \<in> set (ev_fields e) \<and> f_alias (Event_Find e a) = a) \<and>
   (a \<noteq> [] \<and> f_alias f = [] \<longrightarrow>
      Event_Find \<lparr>ev_fields = xs @ f # ys, ev_kind = k\<rparr> a =
      Event_Find \<lparr>ev_fields = xs @ ys, ev_kind = k\<rparr> a)"
proof -
  have 1: "(\<forall>f \<in> set (ev_fields e). f_alias f \<noteq> a) \<longrightarrow>
      Event_Find e a = zero_Field \<and> Field_IsZero (Event_Find e a)"
    by (simp add: Event_Find_def Find_loop_absent zero_Field_def Field_IsZero_def)
  have 2: "i < length (ev_fields e) \<and> f_alias (ev_fields e ! i) = a \<and>
      (\<forall>j<i. f_alias (ev_fields e ! j) \<noteq> a) \<longrightarrow>
      Event_Find e a = ev_fields e ! i"
    using Find_loop_first [of i "ev_fields e" a] by (simp add: Event_Find_def)
  have 3: "Event_Find e a = zero_Field \<or>
      Event_Find e a \<in> set (ev_fields e) \<and> f_alias (Event_Find e a) = a"
    using Find_loop_result [of "ev_fields e" a] by (simp add: Event_Find_def)
  have 4: "a \<noteq> [] \<and> f_alias f = [] \<longrightarrow>
      Event_Find \<lparr>ev_fields = xs @ f # ys, ev_kind = k\<rparr> a =
      Event_Find \<lparr>ev_fields = xs @ ys, ev_kind = k\<rparr> a"
    by (simp add: Event_Find_def Find_loop_skip)
  from 1 2 3 4 show ?thesis by blast
qed

text \<open>The event of the package's test, \<open>NewEvent("foo", Int(1).As("bar"))\<close>, with the
  value of \<open>Int(1)\<close> written out: \<open>bar\<close> finds the second field, \<open>bleh\<close> finds
  nothing, and the first field, which has no alias, can be taken out.\<close>

theorem C7_Find_first_alias_witness:
  "Event_Find
     \<lparr>ev_fields = [String_Field ''foo'', Field_As (String_Field ''1'') ''bar''],
      ev_kind = PlainEvent\<rparr> ''bar'' = Field_As (String_Field ''1'') ''bar'' \<and>
   Field_IsZero (Event_Find
     \<lparr>ev_fields = [String_Field ''foo'', Field_As (String_Field ''1'') ''bar''],
      ev_kind = PlainEvent\<rparr> ''bleh'') \<and>
   Event_Find
     \<lparr>ev_fields = [String_Field ''foo'', Field_As (String_Field ''1'') ''bar''],
      ev_kind = PlainEvent\<rparr> ''bar'' =
   Event_Find
     \<lparr>ev_fields = [Field_As (String_Field ''1'') ''bar''], ev_kind = PlainEvent\<rparr> ''bar''"
proof -
  let ?A = "Field_As (String_Field ''1'') ''bar''"
  let ?E = "\<lparr>ev_fields = [String_Field ''foo'', ?A], ev_kind = PlainEvent\<rparr>"
  have al: "f_alias (String_Field ''foo'') = []" "f_alias ?A = ''bar''"
    by (simp_all add: String_Field_def Field_As_def)
  note at_bar =
    C7_Find_first_alias [of ?E "''bar''" 1 "String_Field ''foo''" "[]" "[?A]" PlainEvent]
  from at_bar [THEN conjunct2, THEN conjunct1] al
  have a: "Event_Find ?E ''bar'' = ?A"
    by simp
  from at_bar [THEN conjunct2, THEN conjunct2, THEN conjunct2] al
  have c: "Event_Find ?E ''bar'' =
      Event_Find \<lparr>ev_fields = [?A], ev_kind = PlainEvent\<rparr> ''bar''"
    by simp
  note at_bleh =
    C7_Find_first_alias [of ?E "''bleh''" 0 "String_Field ''foo''" "[]" "[?A]" PlainEvent]
  from at_bleh [THEN conjunct1] al
  have b: "Field_IsZero (Event_Find ?E ''bleh'')"
    by auto
  from a b c show ?thesis by simp
qed

text \<open>The claim as it was stated fails for the empty alias: in \<open>NewEvent("foo")\<close> the
  only field was never given an alias, and \<open>Find("")\<close> returns it.\<close>

theorem C7_unaliased_field_matches_empty_alias:
  "NewEvent (GoString ''foo'') [] =
     Inr \<lparr>ev_fields = [String_Field ''foo''], ev_kind = PlainEvent\<rparr> \<and>
   Event_Find \<lparr>ev_fields = [String_Field ''foo''], ev_kind = PlainEvent\<rparr> [] =
     String_Field ''foo'' \<and>
   \<not> Field_IsZero (Event_Find \<lparr>ev_fields = [String_Field ''foo''], ev_kind = PlainEvent\<rparr> [])"
  by (simp add: NewEvent_def Event_Find_def String_Field_def Field_IsZero_def)

text \<open>
  Claim C8, as amended. The accessors are total: they return a number and an error or
  \<open>nil\<close>, and never panic. \<open>Int64()\<close> returns no error exactly when the value is
  decimal digits after at most one sign and the number is in the signed 64-bit range;
  \<open>Uint64()\<close> exactly when the value is decimal digits, without a sign, and the
  number is below \<open>2^64\<close>; the number returned is then the one written. \<open>Int()\<close>
  returns an error when the value is not decimal digits after at most one sign, and
  the number written and no error when that number is in the signed 32-bit range.
  So \<open>Int(x).Int()\<close> is \<open>(x, nil)\<close> for every \<open>x\<close> in the signed 32-bit range,
  \<open>Int(x).Int64()\<close> for every \<open>x\<close> in the signed 64-bit range, and
  \<open>Int(x).Uint64()\<close> for every \<open>x\<close> from 0 below \<open>2^64\<close>.
\<close>

theorem C8_integer_accessors:
  "(snd (Field_Int64 f) = None \<longleftrightarrow>
      signed_numeral (f_value f) \<and>
      - (2 ^ 63) \<le> numeral_value (f_value f) \<and> numeral_value (f_value f) < 2 ^ 63) \<and>
   (snd (Field_Int64 f) = None \<longrightarrow> fst (Field_Int64 f) = numeral_value (f_value f)) \<and>
   (snd (Field_Uint64 f) = None \<longleftrightarrow>
      all_digits (f_value f) \<and> decimal_value (f_value f) < 2 ^ 64) \<and>
   (snd (Field_Uint64 f) = None \<longrightarrow> fst (Field_Uint64 f) = decimal_value (f_value f)) \<and>
   (\<not> signed_numeral (f_value f) \<longrightarrow> snd (Field_Int f) \<noteq> None) \<and>
   (signed_numeral (f_value f) \<and>
      - (2 ^ 31) \<le> numeral_value (f_value f) \<and> numeral_value (f_value f) < 2 ^ 31 \<longrightarrow>
      Field_Int f = (numeral_value (f_value f), None)) \<and>
   (- (2 ^ 31) \<le> x \<and> x < 2 ^ 31 \<longrightarrow> Field_Int (Int_Field x) = (x, None)) \<and>
   (- (2 ^ 63) \<le> x \<and> x < 2 ^ 63 \<longrightarrow> Field_Int64 (Int_Field x) = (x, None)) \<and>
   (0 \<le> x \<and> x < 2 ^ 64 \<longrightarrow> Field_Uint64 (Int_Field x) = (nat x, None))"
proof -
  have a: "snd (Field_Int64 f) = None \<longleftrightarrow>
      signed_numeral (f_value f) \<and>
      - (2 ^ 63) \<le> numeral_value (f_value f) \<and> numeral_value (f_value f) < 2 ^ 63"
    using ParseInt_char(1) [of 64 "f_value f"] by (simp add: Field_Int64_def)
  have b: "snd (Field_Int64 f) = None \<longrightarrow> fst (Field_Int64 f) = numeral_value (f_value f)"
    using ParseInt_char(2) [of 64 "f_value f"] by (simp add: Field_Int64_def)
  note c = Uint64_char(1) [of f] and d = Uint64_char(2) [of f]
  have e: "\<not> signed_numeral (f_value f) \<longrightarrow> snd (Field_Int f) \<noteq> None"
    using ParseInt_not_numeral [of "f_value f" 32] by (simp add: Field_Int_def)
  have g: "signed_numeral (f_value f) \<and>
      - (2 ^ 31) \<le> numeral_value (f_value f) \<and> numeral_value (f_value f) < 2 ^ 31 \<longrightarrow>
      Field_Int f = (numeral_value (f_value f), None)"
    using ParseInt_numeral [of "f_value f" 32] by (simp add: Field_Int_def)
  have h: "- (2 ^ 31) \<le> x \<and> x < 2 ^ 31 \<longrightarrow> Field_Int (Int_Field x) = (x, None)"
    using ParseInt_Itoa [of 32 x] by (simp add: Field_Int_def Int_Field_def)
  have i: "- (2 ^ 63) \<le> x \<and> x < 2 ^ 63 \<longrightarrow> Field_Int64 (Int_Field x) = (x, None)"
    using ParseInt_Itoa [of 64 x] by (simp add: Field_Int64_def Int_Field_def)
  have j: "0 \<le> x \<and> x < 2 ^ 64 \<longrightarrow> Field_Uint64 (Int_Field x) = (nat x, None)"
  proof (intro impI)
    assume r: "0 \<le> x \<and> x < 2 ^ 64"
    then have "Itoa x = udigits (nat x)" by (simp add: Itoa_def)
    moreover from r have "nat x \<le> 2 ^ 64 - 1" by (simp add: nat_le_iff)
    ultimately show "Field_Uint64 (Int_Field x) = (nat x, None)"
      using udigits_props [of "nat x"] ParseUint_digits [of "udigits (nat x)" 64]
      by (simp add: Field_Uint64_def Int_Field_def)
  qed
  from a b c d e g h i j show ?thesis by blast
qed

text \<open>The values \<open>-42\<close>, which all three signed paths accept or reject as stated, and
  \<open>4x2\<close>, which is not a number; and the field \<open>Int(42)\<close>.\<close>

theorem C8_integer_accessors_witness:
  "Field_Int (String_Field ''-42'') = (- 42, None) \<and>
   Field_Int64 (String_Field ''-42'') = (- 42, None) \<and>
   snd (Field_Uint64 (String_Field ''-42'')) \<noteq> None \<and>
   snd (Field_Int (String_Field ''4x2'')) \<noteq> None \<and>
   Field_Int (Int_Field 42) = (42, None) \<and>
   Field_Int64 (Int_Field 42) = (42, None) \<and>
   Field_Uint64 (Int_Field 42) = (42, None)"
proof -
  have n1: "signed_numeral ''-42''" "numeral_value ''-42'' = - 42" "\<not> all_digits ''-42''"
    by (simp_all add: signed_numeral_def numeral_value_def unsigned_part_def all_digits_def
        is_digit_def decimal_value_def digit_val_def)
  have n2: "\<not> signed_numeral ''4x2''"
    by (simp add: signed_numeral_def unsigned_part_def all_digits_def is_digit_def)
  have v: "f_value (String_Field s) = s" for s
    by (simp add: String_Field_def)
  from C8_integer_accessors [of "String_Field ''-42''" 42] n1 v
  have a: "Field_Int (String_Field ''-42'') = (- 42, None)"
    and b: "snd (Field_Int64 (String_Field ''-42'')) = None"
       "fst (Field_Int64 (String_Field ''-42'')) = - 42"
    and c: "snd (Field_Uint64 (String_Field ''-42'')) \<noteq> None"
    and e: "Field_Int (Int_Field 42) = (42, None)"
       "Field_Int64 (Int_Field 42) = (42, None)"
       "Field_Uint64 (Int_Field 42) = (42, None)"
    by simp_all
  from b have b': "Field_Int64 (String_Field ''-42'') = (- 42, None)"
    by (simp add: prod_eq_iff)
  from C8_integer_accessors [of "String_Field ''4x2''" 42] n2 v
  have d: "snd (Field_Int (String_Field ''4x2'')) \<noteq> None"
    by simp
  from a b' c d e show ?thesis by simp
qed

text \<open>The claim as it was stated fails where a number is out of the accessor's range:
  \<open>9223372036854775808\<close> is numeric and \<open>Int64()\<close> returns a range error; and
  \<open>Int(2147483648).Int()\<close>, for an \<open>int\<close> of 64 bits, returns a range error and
  not \<open>(2147483648, nil)\<close>.\<close>

theorem C8_range_counterexample:
  "signed_numeral ''9223372036854775808'' \<and>
   Field_Int64 (String_Field ''9223372036854775808'') = (9223372036854775807, Some ErrRange) \<and>
   Field_Int (Int_Field 2147483648) = (2147483647, Some ErrRange)"
proof -
  have a: "signed_numeral ''9223372036854775808''"
    by (simp add: signed_numeral_def unsigned_part_def all_digits_def is_digit_def)
  have v: "numeral_value ''9223372036854775808'' = 9223372036854775808"
    by (simp add: numeral_value_def unsigned_part_def decimal_value_def digit_val_def)
  have b: "Field_Int64 (String_Field ''9223372036854775808'') =
      (9223372036854775807, Some ErrRange)"
    using ParseInt_numeral [OF a, of 64] v by (simp add: Field_Int64_def String_Field_def)
  have c: "Field_Int (Int_Field 2147483648) = (2147483647, Some ErrRange)"
    using ParseInt_numeral [of "Itoa 2147483648" 32] Itoa_numeral [of 2147483648]
    by (simp add: Field_Int_def Int_Field_def)
  from a b c show ?thesis by simp
qed

end
